theory Spec2Isabelle
  imports Main
begin

section \<open>Data model\<close>

text \<open>
  Modelled from the spec: \<^verbatim>\<open>uuid.UUID\<close>, \<^verbatim>\<open>protocol.MemoryUser\<close> and
  \<^verbatim>\<open>vless.MemoryAccount\<close> are declared in packages this development does not hold.
  A UUID is represented by its canonical text, the value of \<^verbatim>\<open>(&id).String()\<close>, which
  is one-to-one on UUIDs; a user record carries its alias and its account payload, and the
  payload either is a VLESS account (with its UUID) or is of another protocol, which is
  all that the type assertion \<^verbatim>\<open>user.Account.(*vless.MemoryAccount)\<close> observes.
  A \<^verbatim>\<open>*protocol.MemoryUser\<close> that may be nil is a \<open>MemoryUser option\<close>.
  Instants and durations are integers (nanoseconds, without the bounds of the machine
  representation); \<^verbatim>\<open>a.After(b)\<close> is \<open>b < a\<close> and \<^verbatim>\<open>a.Add(d)\<close> is \<open>a + d\<close>.
\<close>

type_synonym UUID = string
type_synonym time = int

datatype Account = MemoryAccount UUID | OtherAccount

record MemoryUser =
  Email :: string
  Account :: Account

text \<open>A Go \<^verbatim>\<open>error\<close> value, identified by its message.\<close>

datatype error = Error string

section \<open>The LRU index (\<^verbatim>\<open>cache/lru.go\<close>)\<close>

text \<open>
  A \<^verbatim>\<open>*LRUNode\<close> is an address; nil is \<open>None\<close>. The nodes themselves live in a store
  from addresses to node values, kept with the manager that allocates them: \<open>nodes\<close> is
  the store and \<open>free\<close> the next unused address (what \<^verbatim>\<open>&LRUNode{...}\<close> returns).
  The other three fields are the fields of the Go struct.
\<close>

type_synonym ptr = nat

record LRUNode =
  key :: string
  prev :: "ptr option"
  "next" :: "ptr option"

record LRUManager =
  head :: "ptr option"
  tail :: "ptr option"
  nodeMap :: "string \<rightharpoonup> ptr"
  nodes :: "ptr \<Rightarrow> LRUNode"
  free :: ptr

definition NewLRUManager :: "LRUManager" where
  "NewLRUManager =
     \<lparr>head = None, tail = None, nodeMap = Map.empty,
      nodes = (\<lambda>_. \<lparr>key = [], prev = None, next = None\<rparr>), free = 0\<rparr>"

text \<open>The two field assignments through a node pointer.\<close>

definition set_prev :: "ptr \<Rightarrow> ptr option \<Rightarrow> LRUManager \<Rightarrow> LRUManager" where
  "set_prev p v l = l\<lparr>nodes := (nodes l)(p := (nodes l p)\<lparr>prev := v\<rparr>)\<rparr>"

definition set_next :: "ptr \<Rightarrow> ptr option \<Rightarrow> LRUManager \<Rightarrow> LRUManager" where
  "set_next p v l = l\<lparr>nodes := (nodes l)(p := (nodes l p)\<lparr>next := v\<rparr>)\<rparr>"

text \<open>\<^verbatim>\<open>Add\<close>: a new node at the head, registered under its key.\<close>

definition Add :: "string \<Rightarrow> LRUManager \<Rightarrow> ptr \<times> LRUManager" where
  "Add k l =
     (let node = free l;
          l0 = l\<lparr>nodes := (nodes l)(node := \<lparr>key = k, prev = None, next = None\<rparr>),
                 free := Suc node\<rparr>;
          l1 = (case head l0 of
                  None \<Rightarrow> l0\<lparr>head := Some node, tail := Some node\<rparr>
                | Some h \<Rightarrow> (set_prev h (Some node) (set_next node (Some h) l0))\<lparr>head := Some node\<rparr>)
      in (node, l1\<lparr>nodeMap := (nodeMap l1)(k \<mapsto> node)\<rparr>))"

text \<open>
  \<^verbatim>\<open>Remove\<close>: nil is tolerated; otherwise the five statements of the body run in
  order, each on the state the one before it left: the two endpoint updates, the two
  neighbour updates, and the deletion of the node's key from the map.
\<close>

definition Remove_head :: "ptr \<Rightarrow> LRUManager \<Rightarrow> LRUManager" where
  "Remove_head n l = (if Some n = head l then l\<lparr>head := next (nodes l n)\<rparr> else l)"

definition Remove_tail :: "ptr \<Rightarrow> LRUManager \<Rightarrow> LRUManager" where
  "Remove_tail n l = (if Some n = tail l then l\<lparr>tail := prev (nodes l n)\<rparr> else l)"

definition Remove_prev :: "ptr \<Rightarrow> LRUManager \<Rightarrow> LRUManager" where
  "Remove_prev n l =
     (case prev (nodes l n) of None \<Rightarrow> l | Some p \<Rightarrow> set_next p (next (nodes l n)) l)"

definition Remove_next :: "ptr \<Rightarrow> LRUManager \<Rightarrow> LRUManager" where
  "Remove_next n l =
     (case next (nodes l n) of None \<Rightarrow> l | Some q \<Rightarrow> set_prev q (prev (nodes l n)) l)"

definition Remove_key :: "ptr \<Rightarrow> LRUManager \<Rightarrow> LRUManager" where
  "Remove_key n l = l\<lparr>nodeMap := (nodeMap l)(key (nodes l n) := None)\<rparr>"

definition Remove :: "ptr option \<Rightarrow> LRUManager \<Rightarrow> LRUManager" where
  "Remove node l =
     (case node of
        None \<Rightarrow> l
      | Some n \<Rightarrow>
          Remove_key n (Remove_next n (Remove_prev n (Remove_tail n (Remove_head n l)))))"

text \<open>
  \<^verbatim>\<open>MoveToFront\<close>, for a node pointer that is not nil (every call in the cache is under
  a nil check or takes its argument from the map, which holds no nil).
\<close>

definition MoveToFront_link :: "ptr \<Rightarrow> LRUManager \<Rightarrow> LRUManager" where
  "MoveToFront_link n l =
     (let l1 = set_next n (head l) (set_prev n None l);
          l2 = (case head l1 of None \<Rightarrow> l1 | Some h \<Rightarrow> set_prev h (Some n) l1)
      in l2\<lparr>head := Some n\<rparr>)"

definition MoveToFront :: "ptr \<Rightarrow> LRUManager \<Rightarrow> LRUManager" where
  "MoveToFront n l =
     (if head l = Some n then l else MoveToFront_link n (Remove (Some n) l))"

definition RemoveTail :: "LRUManager \<Rightarrow> LRUManager" where
  "RemoveTail l = (case tail l of None \<Rightarrow> l | Some t \<Rightarrow> Remove (Some t) l)"

definition GetNode :: "string \<Rightarrow> LRUManager \<Rightarrow> ptr option \<times> bool" where
  "GetNode k l = (case nodeMap l k of None \<Rightarrow> (None, False) | Some n \<Rightarrow> (Some n, True))"

section \<open>The cache (\<^verbatim>\<open>cache/cache.go\<close>)\<close>

text \<open>
  An entry is built once in \<^verbatim>\<open>Set\<close> and never written again, and both maps receive the
  same pointer to it; the maps therefore hold the entry value itself. The node pointer in
  it is unique to the entry (\<^verbatim>\<open>Add\<close> allocates), so equal values are the same entry.
\<close>

record User =
  User :: MemoryUser
  ExpiresAt :: time
  lruNode :: "ptr option"

record Cache =
  usersByID :: "string \<rightharpoonup> User"
  usersByEmail :: "string \<rightharpoonup> User"
  lru :: LRUManager
  ttl :: int
  maxSize :: int

definition NewCache :: "int \<Rightarrow> int \<Rightarrow> Cache" where
  "NewCache t m =
     \<lparr>usersByID = Map.empty, usersByEmail = Map.empty, lru = NewLRUManager,
      ttl = t, maxSize = m\<rparr>"

text \<open>\<^verbatim>\<open>int32(x)\<close> on an integer: the low 32 bits, read as a signed number.\<close>

definition int32 :: "int \<Rightarrow> int" where
  "int32 x = (x + 2147483648) mod 4294967296 - 2147483648"

definition len :: "('k \<rightharpoonup> 'v) \<Rightarrow> int" where
  "len m = int (card (dom m))"

definition Cache_Get :: "string \<Rightarrow> time \<Rightarrow> Cache \<Rightarrow> (MemoryUser option \<times> bool) \<times> Cache" where
  "Cache_Get ident now c =
     (case usersByID c ident of
        None \<Rightarrow> ((None, False), c)
      | Some user \<Rightarrow>
          if ExpiresAt user < now then
            (let c1 = (case lruNode user of
                         None \<Rightarrow> c
                       | Some n \<Rightarrow> c\<lparr>lru := Remove (Some n) (lru c)\<rparr>);
                 c2 = c1\<lparr>usersByID := (usersByID c1)(ident := None)\<rparr>;
                 c3 = c2\<lparr>usersByEmail := (usersByEmail c2)(Email (User user) := None)\<rparr>
             in ((None, False), c3))
          else
            ((Some (User user), True),
             (case lruNode user of
                None \<Rightarrow> c
              | Some n \<Rightarrow> c\<lparr>lru := MoveToFront n (lru c)\<rparr>)))"

definition Cache_GetByEmail ::
  "string \<Rightarrow> time \<Rightarrow> Cache \<Rightarrow> (MemoryUser option \<times> bool) \<times> Cache" where
  "Cache_GetByEmail email now c =
     (case usersByEmail c email of
        None \<Rightarrow> ((None, False), c)
      | Some user \<Rightarrow>
          (case Account (User user) of
             OtherAccount \<Rightarrow> ((None, False), c)
           | MemoryAccount uuid \<Rightarrow>
               if ExpiresAt user < now then
                 (let c1 = (case GetNode uuid (lru c) of
                              (node, True) \<Rightarrow> c\<lparr>lru := Remove node (lru c)\<rparr>
                            | (node, False) \<Rightarrow> c);
                      c2 = c1\<lparr>usersByEmail := (usersByEmail c1)(email := None)\<rparr>;
                      c3 = c2\<lparr>usersByID := (usersByID c2)(uuid := None)\<rparr>
                  in ((None, False), c3))
               else
                 ((Some (User user), True),
                  (case GetNode uuid (lru c) of
                     (Some n, True) \<Rightarrow> c\<lparr>lru := MoveToFront n (lru c)\<rparr>
                   | _ \<Rightarrow> c))))"

text \<open>
  \<^verbatim>\<open>Set\<close>, for a record pointer that is not nil. The capacity check and the eviction
  of the tail come first; then the new entry goes into both maps and its node to the head.
\<close>

definition evict :: "Cache \<Rightarrow> Cache" where
  "evict c =
     (if 0 < maxSize c \<and> maxSize c \<le> int32 (len (usersByID c)) then
        (case tail (lru c) of
           None \<Rightarrow> c
         | Some t \<Rightarrow>
             (let ident = key (nodes (lru c) t) in
                case usersByID c ident of
                  None \<Rightarrow> c
                | Some user \<Rightarrow>
                    c\<lparr>usersByID := (usersByID c)(ident := None),
                      usersByEmail := (usersByEmail c)(Email (User user) := None),
                      lru := RemoveTail (lru c)\<rparr>))
      else c)"

definition Cache_Set :: "string \<Rightarrow> MemoryUser \<Rightarrow> time \<Rightarrow> Cache \<Rightarrow> Cache" where
  "Cache_Set ident user now c =
     (let c1 = evict c;
          (node, l) = Add ident (lru c1);
          newUser = \<lparr>User = user, ExpiresAt = now + ttl c1, lruNode = Some node\<rparr>
      in c1\<lparr>usersByID := (usersByID c1)(ident \<mapsto> newUser),
            usersByEmail := (usersByEmail c1)(Email user \<mapsto> newUser),
            lru := l\<rparr>)"

definition Cache_Delete :: "string \<Rightarrow> Cache \<Rightarrow> Cache" where
  "Cache_Delete ident c =
     (case usersByID c ident of
        None \<Rightarrow> c
      | Some user \<Rightarrow>
          (let c1 = c\<lparr>usersByID := (usersByID c)(ident := None)\<rparr>;
               c2 = c1\<lparr>usersByEmail := (usersByEmail c1)(Email (User user) := None)\<rparr>
           in case lruNode user of
                None \<Rightarrow> c2
              | Some n \<Rightarrow> c2\<lparr>lru := Remove (Some n) (lru c2)\<rparr>))"

text \<open>
  The three operations below range over \<^verbatim>\<open>usersByID\<close>. Go leaves the order of a range
  over a map open, so the order is an argument: \<open>ks\<close> lists the keys as the loop meets them.
\<close>

definition matches :: "('k \<rightharpoonup> User) \<Rightarrow> string \<Rightarrow> 'k \<Rightarrow> bool" where
  "matches m email ident = (case m ident of None \<Rightarrow> False | Some u \<Rightarrow> Email (User u) = email)"

definition Cache_DeleteByEmail :: "string list \<Rightarrow> string \<Rightarrow> Cache \<Rightarrow> Cache" where
  "Cache_DeleteByEmail ks email c =
     (case usersByEmail c email of
        None \<Rightarrow> c
      | Some user \<Rightarrow>
          (let c1 = c\<lparr>usersByEmail := (usersByEmail c)(email := None)\<rparr>;
               c2 = (case Account (User user) of
                       MemoryAccount uuid \<Rightarrow> c1\<lparr>usersByID := (usersByID c1)(uuid := None)\<rparr>
                     | OtherAccount \<Rightarrow>
                         (case find (matches (usersByID c1) email) ks of
                            None \<Rightarrow> c1
                          | Some ident \<Rightarrow> c1\<lparr>usersByID := (usersByID c1)(ident := None)\<rparr>))
           in case lruNode user of
                None \<Rightarrow> c2
              | Some n \<Rightarrow> c2\<lparr>lru := Remove (Some n) (lru c2)\<rparr>))"

definition live :: "time \<Rightarrow> User \<Rightarrow> bool" where
  "live now user = (\<not> ExpiresAt user < now)"

definition Cache_GetAll :: "string list \<Rightarrow> time \<Rightarrow> Cache \<Rightarrow> MemoryUser list" where
  "Cache_GetAll ks now c = map User (filter (live now) (List.map_filter (usersByID c) ks))"

definition Cache_GetCount :: "string list \<Rightarrow> time \<Rightarrow> Cache \<Rightarrow> int" where
  "Cache_GetCount ks now c =
     int (length (filter (live now) (List.map_filter (usersByID c) ks)))"

text \<open>
  \<^verbatim>\<open>Clear\<close> puts two new maps and a new manager in place. The new manager starts with no
  head, no tail and an empty lookup map; the node objects of the old one are out of reach
  and stay in the store, where no pointer of the new state leads to them.
\<close>

definition Cache_Clear :: "Cache \<Rightarrow> Cache" where
  "Cache_Clear c =
     c\<lparr>usersByID := Map.empty, usersByEmail := Map.empty,
       lru := (lru c)\<lparr>head := None, tail := None, nodeMap := Map.empty\<rparr>\<rparr>"

section \<open>The storage contract and the validator (\<^verbatim>\<open>validator.go\<close>)\<close>

text \<open>
  \<^verbatim>\<open>UserStorage\<close> is an interface: a storage is any implementation of its methods. Each
  method is a function on the state \<open>'s\<close> behind the interface value, returning what the Go
  method returns together with the state it leaves. A slice is a list, nil being \<open>[]\<close>.
\<close>

record 's UserStorage =
  GetUserByID :: "UUID \<Rightarrow> 's \<Rightarrow> (MemoryUser option \<times> error option) \<times> 's"
  GetUserByEmail :: "string \<Rightarrow> 's \<Rightarrow> (MemoryUser option \<times> error option) \<times> 's"
  GetUsers :: "int \<Rightarrow> int \<Rightarrow> 's \<Rightarrow> (MemoryUser option list \<times> error option) \<times> 's"
  AddUser :: "MemoryUser \<Rightarrow> 's \<Rightarrow> error option \<times> 's"
  DelUser :: "string \<Rightarrow> 's \<Rightarrow> error option \<times> 's"
  GetCount :: "'s \<Rightarrow> (int \<times> error option) \<times> 's"
  Close :: "'s \<Rightarrow> error option \<times> 's"

record 's Validator =
  storage :: "'s UserStorage"
  store :: 's
  cache :: "Cache option"

text \<open>\<^verbatim>\<open>Add\<close>, for a record pointer that is not nil.\<close>

definition Validator_Add ::
  "MemoryUser \<Rightarrow> time \<Rightarrow> 's Validator \<Rightarrow> error option \<times> 's Validator" where
  "Validator_Add user now v =
     (case Account user of
        OtherAccount \<Rightarrow> (Some (Error ''not a VLESS user''), v)
      | MemoryAccount uuid \<Rightarrow>
          (let (err, s) = AddUser (storage v) user (store v);
               v1 = v\<lparr>store := s\<rparr>
           in case err of
                Some e \<Rightarrow> (Some e, v1)
              | None \<Rightarrow>
                  (None,
                   (case cache v1 of
                      None \<Rightarrow> v1
                    | Some c \<Rightarrow> v1\<lparr>cache := Some (Cache_Set uuid user now c)\<rparr>))))"

text \<open>
  The cache lookup that opens \<^verbatim>\<open>Get\<close> and \<^verbatim>\<open>GetByEmail\<close>: with no cache it is a miss
  that changes nothing. The clock is read once in the lookup (\<open>now\<close>) and once more in the
  backfill (\<open>now'\<close>), after the storage call.
\<close>

definition lookup ::
  "(Cache \<Rightarrow> (MemoryUser option \<times> bool) \<times> Cache) \<Rightarrow> 's Validator \<Rightarrow>
     (MemoryUser option \<times> bool) \<times> 's Validator" where
  "lookup f v =
     (case cache v of
        None \<Rightarrow> ((None, False), v)
      | Some c \<Rightarrow> (let (r, c1) = f c in (r, v\<lparr>cache := Some c1\<rparr>)))"

definition Validator_Get ::
  "UUID \<Rightarrow> time \<Rightarrow> time \<Rightarrow> 's Validator \<Rightarrow> MemoryUser option \<times> 's Validator" where
  "Validator_Get ident now now' v =
     (let uuid = ident;
          ((hit, exists), v1) = lookup (Cache_Get uuid now) v
      in if exists then (hit, v1)
         else
           (let ((user, err), s) = GetUserByID (storage v1) ident (store v1);
                v2 = v1\<lparr>store := s\<rparr>
            in case err of
                 Some e \<Rightarrow> (None, v2)
               | None \<Rightarrow>
                   (case (user, cache v2) of
                      (Some u, Some c) \<Rightarrow> (user, v2\<lparr>cache := Some (Cache_Set uuid u now' c)\<rparr>)
                    | _ \<Rightarrow> (user, v2))))"

definition Validator_GetByEmail ::
  "string \<Rightarrow> time \<Rightarrow> time \<Rightarrow> 's Validator \<Rightarrow> MemoryUser option \<times> 's Validator" where
  "Validator_GetByEmail email now now' v =
     (let ((hit, exists), v1) = lookup (Cache_GetByEmail email now) v
      in if exists then (hit, v1)
         else
           (let ((user, err), s) = GetUserByEmail (storage v1) email (store v1);
                v2 = v1\<lparr>store := s\<rparr>
            in case err of
                 Some e \<Rightarrow> (None, v2)
               | None \<Rightarrow>
                   (case (user, cache v2) of
                      (Some u, Some c) \<Rightarrow>
                        (case Account u of
                           MemoryAccount uuid \<Rightarrow>
                             (user, v2\<lparr>cache := Some (Cache_Set uuid u now' c)\<rparr>)
                         | OtherAccount \<Rightarrow> (user, v2))
                    | _ \<Rightarrow> (user, v2))))"

text \<open>
  The pagination loop of \<^verbatim>\<open>GetAll\<close>. Nothing bounds it for a storage that keeps
  returning full pages, so it is a partial function: \<open>None\<close> is the loop that never returns.
  An error on a page returns nil, the empty list. The offset is an unbounded integer (a
  64-bit \<^verbatim>\<open>int\<close> would take some \<open>9 * 10^16\<close> full pages to wrap).
\<close>

partial_function (option) GetAll_loop ::
  "'s UserStorage \<Rightarrow> int \<Rightarrow> int \<Rightarrow> MemoryUser option list \<Rightarrow> 's \<Rightarrow>
     (MemoryUser option list \<times> 's) option" where
  "GetAll_loop st offset limit allUsers s =
     (case GetUsers st offset limit s of
        ((users, Some err), s1) \<Rightarrow> Some ([], s1)
      | ((users, None), s1) \<Rightarrow>
          if length users = 0 then Some (allUsers, s1)
          else if int (length users) < limit then Some (allUsers @ users, s1)
          else GetAll_loop st (offset + limit) limit (allUsers @ users) s1)"

definition Validator_GetAll ::
  "string list \<Rightarrow> time \<Rightarrow> 's Validator \<Rightarrow> (MemoryUser option list \<times> 's Validator) option" where
  "Validator_GetAll ks now v =
     (case cache v of
        Some c \<Rightarrow> Some (map Some (Cache_GetAll ks now c), v)
      | None \<Rightarrow>
          (case GetAll_loop (storage v) 0 100 [] (store v) of
             None \<Rightarrow> None
           | Some (users, s) \<Rightarrow> Some (users, v\<lparr>store := s\<rparr>)))"

definition Validator_Del ::
  "string list \<Rightarrow> string \<Rightarrow> 's Validator \<Rightarrow> error option \<times> 's Validator" where
  "Validator_Del ks email v =
     (let (err, s) = DelUser (storage v) email (store v);
          v1 = v\<lparr>store := s\<rparr>
      in case err of
           Some e \<Rightarrow> (Some e, v1)
         | None \<Rightarrow>
             (None,
              (case cache v1 of
                 None \<Rightarrow> v1
               | Some c \<Rightarrow> v1\<lparr>cache := Some (Cache_DeleteByEmail ks email c)\<rparr>)))"

definition Validator_GetCount ::
  "string list \<Rightarrow> time \<Rightarrow> 's Validator \<Rightarrow> int \<times> 's Validator" where
  "Validator_GetCount ks now v =
     (case cache v of
        Some c \<Rightarrow> (Cache_GetCount ks now c, v)
      | None \<Rightarrow>
          (let ((count, err), s) = GetCount (storage v) (store v);
               v1 = v\<lparr>store := s\<rparr>
           in case err of Some e \<Rightarrow> (0, v1) | None \<Rightarrow> (count, v1)))"

definition Validator_Close :: "'s Validator \<Rightarrow> error option \<times> 's Validator" where
  "Validator_Close v =
     (let v1 = (case cache v of None \<Rightarrow> v | Some c \<Rightarrow> v\<lparr>cache := Some (Cache_Clear c)\<rparr>);
          (err, s) = Close (storage v1) (store v1)
      in (err, v1\<lparr>store := s\<rparr>))"

section \<open>The linked list as a list of addresses\<close>

text \<open>
  \<open>seg h p xs q\<close>: in the store \<open>h\<close> the nodes \<open>xs\<close> are chained in this order, the first
  one having \<open>p\<close> before it and the last one \<open>q\<close> after it. \<open>dll l xs\<close>: the list of the
  manager \<open>l\<close>, read from \<open>head\<close> along \<open>next\<close>, is \<open>xs\<close> (most recently used first); it
  ends in nil, \<open>tail\<close> is its last node, the \<open>prev\<close> links mirror the \<open>next\<close> links, no node
  occurs twice, and every node has been allocated.
\<close>

fun first_or :: "ptr option \<Rightarrow> ptr list \<Rightarrow> ptr option" where
  "first_or q [] = q"
| "first_or q (x # xs) = Some x"

fun last_or :: "ptr option \<Rightarrow> ptr list \<Rightarrow> ptr option" where
  "last_or p [] = p"
| "last_or p (x # xs) = last_or (Some x) xs"

fun seg :: "(ptr \<Rightarrow> LRUNode) \<Rightarrow> ptr option \<Rightarrow> ptr list \<Rightarrow> ptr option \<Rightarrow> bool" where
  "seg h p [] q = True"
| "seg h p (x # xs) q =
     (prev (h x) = p \<and> next (h x) = first_or q xs \<and> seg h (Some x) xs q)"

definition dll :: "LRUManager \<Rightarrow> ptr list \<Rightarrow> bool" where
  "dll l xs \<longleftrightarrow>
     distinct xs \<and> head l = first_or None xs \<and> tail l = last_or None xs \<and>
     seg (nodes l) None xs None \<and> (\<forall>x \<in> set xs. x < free l)"

text \<open>The store once the node between \<open>P\<close> and \<open>Q\<close> has been bypassed.\<close>

definition unlink :: "ptr option \<Rightarrow> ptr option \<Rightarrow> (ptr \<Rightarrow> LRUNode) \<Rightarrow> ptr \<Rightarrow> LRUNode" where
  "unlink P Q h =
     (let h1 = (case P of None \<Rightarrow> h | Some p \<Rightarrow> h(p := (h p)\<lparr>next := Q\<rparr>))
      in case Q of None \<Rightarrow> h1 | Some q \<Rightarrow> h1(q := (h1 q)\<lparr>prev := P\<rparr>))"

section \<open>The cache over a well-formed list\<close>

text \<open>
  \<open>cache_inv c xs\<close>: the LRU list of the cache is \<open>xs\<close>, its nodes carry different keys, these
  keys are exactly the identifiers resident in \<^verbatim>\<open>usersByID\<close>, and the entry under a node's
  key points back to that node. \<open>recency c xs\<close> reads the list as identifiers with their
  expiry instants, most recently used first. \<open>full\<close> is the capacity check of \<^verbatim>\<open>Set\<close> in
  terms of the list, \<open>survivors\<close> the list after the eviction, and \<open>bounded\<close> says that the
  capacity is an \<^verbatim>\<open>int32\<close> value and, when positive, not exceeded.
\<close>

definition node_key :: "Cache \<Rightarrow> ptr \<Rightarrow> string" where
  "node_key c x = key (nodes (lru c) x)"

definition cache_inv :: "Cache \<Rightarrow> ptr list \<Rightarrow> bool" where
  "cache_inv c xs \<longleftrightarrow>
     dll (lru c) xs \<and> distinct (map (node_key c) xs) \<and>
     dom (usersByID c) = node_key c ` set xs \<and>
     (\<forall>x \<in> set xs. \<exists>u. usersByID c (node_key c x) = Some u \<and> lruNode u = Some x)"

definition recency :: "Cache \<Rightarrow> ptr list \<Rightarrow> (string \<times> time) list" where
  "recency c xs = map (\<lambda>x. (node_key c x, ExpiresAt (the (usersByID c (node_key c x))))) xs"

definition full :: "Cache \<Rightarrow> ptr list \<Rightarrow> bool" where
  "full c xs \<longleftrightarrow> 0 < maxSize c \<and> maxSize c \<le> int (length xs)"

definition bounded :: "Cache \<Rightarrow> ptr list \<Rightarrow> bool" where
  "bounded c xs \<longleftrightarrow> maxSize c < 2147483648 \<and> (0 < maxSize c \<longrightarrow> int (length xs) \<le> maxSize c)"

definition survivors :: "Cache \<Rightarrow> ptr list \<Rightarrow> ptr list" where
  "survivors c xs = (if full c xs then butlast xs else xs)"

section \<open>The cache in the words of the specification\<close>

text \<open>
  The specification describes the cache as a recency order: \<^verbatim>\<open>Set\<close> evicts the least
  recently touched entry when the cache is at its capacity (capacity 0 meaning no bound)
  and puts the new entry, expiring at now + TTL, in the most recently used position;
  \<^verbatim>\<open>Get\<close> leaves the cache alone on a miss, drops an entry whose expiry instant has
  passed (the clock is strictly after it, which is the comparison of the code), and
  otherwise moves the entry to the most recently used position. The
  definitions \<open>spec_Set\<close> and \<open>spec_Get\<close> say this on a list of identifiers with their
  expiry instants, most recently touched first; they follow the specification, not the
  code. A trace is a list of \<^verbatim>\<open>Set\<close> and \<^verbatim>\<open>Get\<close> calls: \<open>run\<close> performs it on the cache
  of the code, \<open>spec_run\<close> on the list. A trace is \<open>admissible\<close> when each \<^verbatim>\<open>Set\<close> in it
  inserts an identifier that is not resident at that moment.
\<close>

definition spec_Set ::
  "int \<Rightarrow> int \<Rightarrow> string \<Rightarrow> time \<Rightarrow> (string \<times> time) list \<Rightarrow> (string \<times> time) list" where
  "spec_Set m t ident now l =
     (ident, now + t) # (if 0 < m \<and> m \<le> int (length l) then butlast l else l)"

definition spec_Get :: "string \<Rightarrow> time \<Rightarrow> (string \<times> time) list \<Rightarrow> (string \<times> time) list" where
  "spec_Get ident now l =
     (case map_of l ident of
        None \<Rightarrow> l
      | Some e \<Rightarrow>
          if e < now then filter (\<lambda>p. fst p \<noteq> ident) l
          else (ident, e) # filter (\<lambda>p. fst p \<noteq> ident) l)"

datatype op = OpSet string MemoryUser time | OpGet string time

fun step :: "op \<Rightarrow> Cache \<Rightarrow> Cache" where
  "step (OpSet ident user now) c = Cache_Set ident user now c"
| "step (OpGet ident now) c = snd (Cache_Get ident now c)"

fun run :: "op list \<Rightarrow> Cache \<Rightarrow> Cache" where
  "run [] c = c"
| "run (x # xs) c = run xs (step x c)"

fun spec_step :: "int \<Rightarrow> int \<Rightarrow> op \<Rightarrow> (string \<times> time) list \<Rightarrow> (string \<times> time) list" where
  "spec_step m t (OpSet ident user now) l = spec_Set m t ident now l"
| "spec_step m t (OpGet ident now) l = spec_Get ident now l"

fun spec_run :: "int \<Rightarrow> int \<Rightarrow> op list \<Rightarrow> (string \<times> time) list \<Rightarrow> (string \<times> time) list" where
  "spec_run m t [] l = l"
| "spec_run m t (x # xs) l = spec_run m t xs (spec_step m t x l)"

fun admissible :: "int \<Rightarrow> int \<Rightarrow> op list \<Rightarrow> (string \<times> time) list \<Rightarrow> bool" where
  "admissible m t [] l = True"
| "admissible m t (OpSet ident user now # xs) l =
     (ident \<notin> fst ` set l \<and> admissible m t xs (spec_Set m t ident now l))"
| "admissible m t (OpGet ident now # xs) l = admissible m t xs (spec_Get ident now l)"

definition inserts :: "(string \<times> MemoryUser \<times> time) list \<Rightarrow> op list" where
  "inserts = map (\<lambda>(ident, user, now). OpSet ident user now)"

section \<open>Runs of the pagination loop\<close>

text \<open>
  \<open>reaches st s0 offset allUsers s\<close>: started on the storage state \<open>s0\<close>, the loop of
  \<^verbatim>\<open>GetAll\<close> comes to the top of an iteration with this offset, these accumulated records
  and this storage state. It starts at offset 0 with nothing accumulated, and goes round
  again after a page without error that holds at least 100 records.
\<close>

inductive reaches ::
  "'s UserStorage \<Rightarrow> 's \<Rightarrow> int \<Rightarrow> MemoryUser option list \<Rightarrow> 's \<Rightarrow> bool"
  for st :: "'s UserStorage" and s0 :: 's where
  start: "reaches st s0 0 [] s0"
| page: "reaches st s0 offset allUsers s \<Longrightarrow>
         GetUsers st offset 100 s = ((users, None), s1) \<Longrightarrow> 100 \<le> length users \<Longrightarrow>
         reaches st s0 (offset + 100) (allUsers @ users) s1"

section \<open>Concrete inputs\<close>

text \<open>Four user records, each with a VLESS account, keyed by its UUID.\<close>

definition user1 :: MemoryUser where
  "user1 = \<lparr>Email = ''a1@example.com'', Account = MemoryAccount ''u1''\<rparr>"

definition user2 :: MemoryUser where
  "user2 = \<lparr>Email = ''a2@example.com'', Account = MemoryAccount ''u2''\<rparr>"

definition user3 :: MemoryUser where
  "user3 = \<lparr>Email = ''a3@example.com'', Account = MemoryAccount ''u3''\<rparr>"

definition user4 :: MemoryUser where
  "user4 = \<lparr>Email = ''a4@example.com'', Account = MemoryAccount ''u4''\<rparr>"

text \<open>
  A cache of the given capacity and a TTL of 10 into which \<open>user1\<close> and \<open>user2\<close> are set,
  in this order, and then read by identifier, in this order, all at time 0.
\<close>

definition touched_twice :: "int \<Rightarrow> Cache" where
  "touched_twice m =
     snd (Cache_Get ''u2'' 0 (snd (Cache_Get ''u1'' 0
       (Cache_Set ''u2'' user2 0 (Cache_Set ''u1'' user1 0 (NewCache 10 m))))))"

text \<open>The same cache after \<open>user1\<close> has been looked up by alias at time 11, past its expiry.\<close>

definition after_expiry :: Cache where
  "after_expiry = snd (Cache_GetByEmail ''a1@example.com'' 11 (touched_twice 2))"

text \<open>
  Two storages over a list of records. \<open>list_storage\<close> never fails and serves pages by
  offset and limit. \<open>failing_storage e k\<close> fails every call with the error \<open>e\<close>, except
  that it still serves the pages that start below the offset \<open>k\<close>.
\<close>

definition list_storage :: "MemoryUser list UserStorage" where
  "list_storage =
     \<lparr>GetUserByID = (\<lambda>ident s. ((find (\<lambda>u. Account u = MemoryAccount ident) s, None), s)),
      GetUserByEmail = (\<lambda>email s. ((find (\<lambda>u. Email u = email) s, None), s)),
      GetUsers = (\<lambda>offset limit s. ((map Some (take (nat limit) (drop (nat offset) s)), None), s)),
      AddUser = (\<lambda>user s. (None, s @ [user])),
      DelUser = (\<lambda>email s. (None, filter (\<lambda>u. Email u \<noteq> email) s)),
      GetCount = (\<lambda>s. ((int (length s), None), s)),
      Close = (\<lambda>s. (None, s))\<rparr>"

definition failing_storage :: "error \<Rightarrow> int \<Rightarrow> MemoryUser list UserStorage" where
  "failing_storage e k =
     \<lparr>GetUserByID = (\<lambda>ident s. ((None, Some e), s)),
      GetUserByEmail = (\<lambda>email s. ((None, Some e), s)),
      GetUsers = (\<lambda>offset limit s.
         if offset < k then GetUsers list_storage offset limit s else (([], Some e), s)),
      AddUser = (\<lambda>user s. (Some e, s)),
      DelUser = (\<lambda>email s. (Some e, s)),
      GetCount = (\<lambda>s. ((0, Some e), s)),
      Close = (\<lambda>s. (Some e, s))\<rparr>"

text \<open>
  A validator over an empty store with an empty cache (TTL 10, capacity 2), and one whose
  cache holds \<open>user1\<close>, set at time 0, while the store does not know that user.
\<close>

definition cached_validator :: "MemoryUser list UserStorage \<Rightarrow> MemoryUser list Validator" where
  "cached_validator st = \<lparr>storage = st, store = [], cache = Some (NewCache 10 2)\<rparr>"

definition stale_validator :: "MemoryUser list Validator" where
  "stale_validator =
     \<lparr>storage = list_storage, store = [],
      cache = Some (Cache_Set ''u1'' user1 0 (NewCache 10 2))\<rparr>"

text \<open>
  A list of \<open>n\<close> different records, and a validator without a cache over a store that
  holds the given records.
\<close>

definition many_users :: "nat \<Rightarrow> MemoryUser list" where
  "many_users n =
     map (\<lambda>i. \<lparr>Email = replicate i (CHR ''a''), Account = MemoryAccount (replicate i (CHR ''u''))\<rparr>)
       [0..<n]"

definition plain_validator ::
  "MemoryUser list UserStorage \<Rightarrow> MemoryUser list \<Rightarrow> MemoryUser list Validator" where
  "plain_validator st s = \<lparr>storage = st, store = s, cache = None\<rparr>"

text \<open>A cache (TTL 10, capacity 2) that holds \<open>user1\<close>, set at time 0.\<close>

definition one_entry :: Cache where
  "one_entry = Cache_Set ''u1'' user1 0 (NewCache 10 2)"

section \<open>The list operations on a well-formed list\<close>

text \<open>
  What the four operations do to the list itself, whatever the lookup map holds: on a
  well-formed list \<open>xs\<close>, \<^verbatim>\<open>Add\<close> puts the new node in front of \<open>xs\<close>, \<^verbatim>\<open>Remove\<close> of a node
  of the list takes it out, \<^verbatim>\<open>MoveToFront\<close> takes it out and puts it in front, and
  \<^verbatim>\<open>RemoveTail\<close> drops the last node; the list stays well formed each time.
\<close>

lemma first_or_append: "first_or q (as @ bs) = first_or (first_or q bs) as"
  by (cases as) auto

lemma last_or_append: "last_or p (as @ bs) = last_or (last_or p as) bs"
  by (induction as arbitrary: p) auto

lemma seg_append:
  "seg h p (as @ bs) q = (seg h p as (first_or q bs) \<and> seg h (last_or p as) bs q)"
  by (induction as arbitrary: p) (auto simp: first_or_append)

lemma seg_frame: "x \<notin> set xs \<Longrightarrow> seg (h(x := v)) p xs q = seg h p xs q"
  by (induction xs arbitrary: p) auto

lemma dll_split:
  assumes "dll l (as @ n # bs)"
  shows "n \<notin> set as" "n \<notin> set bs" "distinct as" "distinct bs" "set as \<inter> set bs = {}"
    "head l = first_or (Some n) as" "tail l = last_or (Some n) bs"
    "prev (nodes l n) = last_or None as" "next (nodes l n) = first_or None bs"
    "seg (nodes l) None as (Some n)" "seg (nodes l) (Some n) bs None"
  using assms by (auto simp: dll_def seg_append first_or_append last_or_append)

lemma last_or_mem: "last_or p bs = (if bs = [] then p else Some (last bs))"
  by (induction bs arbitrary: p) auto

lemma last_or_in: "last_or None as = Some p \<Longrightarrow> p \<in> set as"
  by (auto simp: last_or_mem split: if_splits)

lemma seg_unlink:
  assumes "seg h None as (Some n)" and "seg h (Some n) bs None"
    and "distinct as" and "distinct bs" and "set as \<inter> set bs = {}"
  shows "seg (unlink (last_or None as) (first_or None bs) h) None (as @ bs) None"
proof (cases as rule: rev_cases)
  case Nil
  with assms show ?thesis
    by (cases bs) (simp_all add: unlink_def seg_frame)
next
  case (snoc as' p)
  with assms show ?thesis
    by (cases bs) (simp_all add: unlink_def seg_append seg_frame last_or_append)
qed

lemma set_prev_simps [simp]:
  "head (set_prev p v l) = head l" "tail (set_prev p v l) = tail l"
  "nodeMap (set_prev p v l) = nodeMap l" "free (set_prev p v l) = free l"
  "nodes (set_prev p v l) = (nodes l)(p := (nodes l p)\<lparr>prev := v\<rparr>)"
  by (simp_all add: set_prev_def)

lemma set_next_simps [simp]:
  "head (set_next p v l) = head l" "tail (set_next p v l) = tail l"
  "nodeMap (set_next p v l) = nodeMap l" "free (set_next p v l) = free l"
  "nodes (set_next p v l) = (nodes l)(p := (nodes l p)\<lparr>next := v\<rparr>)"
  by (simp_all add: set_next_def)

lemma Remove_head_simps [simp]:
  "head (Remove_head n l) = (if Some n = head l then next (nodes l n) else head l)"
  "tail (Remove_head n l) = tail l" "nodeMap (Remove_head n l) = nodeMap l"
  "free (Remove_head n l) = free l" "nodes (Remove_head n l) = nodes l"
  by (simp_all add: Remove_head_def)

lemma Remove_tail_simps [simp]:
  "tail (Remove_tail n l) = (if Some n = tail l then prev (nodes l n) else tail l)"
  "head (Remove_tail n l) = head l" "nodeMap (Remove_tail n l) = nodeMap l"
  "free (Remove_tail n l) = free l" "nodes (Remove_tail n l) = nodes l"
  by (simp_all add: Remove_tail_def)

lemma Remove_prev_simps [simp]:
  "head (Remove_prev n l) = head l" "tail (Remove_prev n l) = tail l"
  "nodeMap (Remove_prev n l) = nodeMap l" "free (Remove_prev n l) = free l"
  "nodes (Remove_prev n l) =
     (case prev (nodes l n) of None \<Rightarrow> nodes l
      | Some p \<Rightarrow> (nodes l)(p := (nodes l p)\<lparr>next := next (nodes l n)\<rparr>))"
  by (simp_all add: Remove_prev_def split: option.split)

lemma Remove_next_simps [simp]:
  "head (Remove_next n l) = head l" "tail (Remove_next n l) = tail l"
  "nodeMap (Remove_next n l) = nodeMap l" "free (Remove_next n l) = free l"
  "nodes (Remove_next n l) =
     (case next (nodes l n) of None \<Rightarrow> nodes l
      | Some q \<Rightarrow> (nodes l)(q := (nodes l q)\<lparr>prev := prev (nodes l n)\<rparr>))"
  by (simp_all add: Remove_next_def split: option.split)

lemma Remove_key_simps [simp]:
  "head (Remove_key n l) = head l" "tail (Remove_key n l) = tail l"
  "nodeMap (Remove_key n l) = (nodeMap l)(key (nodes l n) := None)"
  "free (Remove_key n l) = free l" "nodes (Remove_key n l) = nodes l"
  by (simp_all add: Remove_key_def)

lemma head_Remove: "head (Remove (Some n) l) = (if Some n = head l then next (nodes l n) else head l)"
  by (simp add: Remove_def)

lemma tail_Remove: "tail (Remove (Some n) l) = (if Some n = tail l then prev (nodes l n) else tail l)"
  by (simp add: Remove_def)

lemma free_Remove: "free (Remove n l) = free l"
  by (simp add: Remove_def split: option.split)

lemma nodes_Remove:
  "prev (nodes l n) \<noteq> Some n \<Longrightarrow>
     nodes (Remove (Some n) l) = unlink (prev (nodes l n)) (next (nodes l n)) (nodes l)"
  by (simp add: Remove_def unlink_def Let_def split: option.split)

lemma key_Remove: "key (nodes (Remove n l) x) = key (nodes l x)"
proof (cases n)
  case None
  then show ?thesis by (simp add: Remove_def)
next
  case (Some m)
  then show ?thesis by (simp add: Remove_def split: option.split)
qed

lemma nodeMap_Remove: "nodeMap (Remove (Some n) l) = (nodeMap l)(key (nodes l n) := None)"
  by (simp add: Remove_def split: option.split)

lemma Remove_dll_split:
  assumes "dll l (as @ n # bs)"
  shows "dll (Remove (Some n) l) (as @ bs)"
proof -
  note f = dll_split[OF assms]
  have p: "prev (nodes l n) \<noteq> Some n"
    using f(1,8) by (auto dest: last_or_in)
  have 1: "head (Remove (Some n) l) = first_or None (as @ bs)"
    using f(1,6,9) by (cases as) (simp_all add: head_Remove)
  have 2: "tail (Remove (Some n) l) = last_or None (as @ bs)"
    using f(2,7,8)
    by (cases "bs = []") (auto simp: tail_Remove last_or_append last_or_mem)
  have 3: "seg (nodes (Remove (Some n) l)) None (as @ bs) None"
    using seg_unlink[OF f(10,11,3,4,5)] by (simp add: nodes_Remove[OF p] f(8,9))
  have 4: "distinct (as @ bs)" using f(3,4,5) by simp
  have 5: "\<forall>x \<in> set (as @ bs). x < free (Remove (Some n) l)"
    using assms by (simp add: dll_def free_Remove)
  from 1 2 3 4 5 show ?thesis by (simp add: dll_def)
qed

lemma Remove_dll:
  assumes "dll l xs" and "n \<in> set xs"
  shows "dll (Remove (Some n) l) (remove1 n xs)"
proof -
  from assms(2) obtain as bs where xs: "xs = as @ n # bs" and n: "n \<notin> set as"
    by (auto dest: split_list_first)
  from n have "remove1 n xs = as @ bs" by (simp add: xs remove1_append)
  with assms(1) Remove_dll_split[of l as n bs] show ?thesis by (simp add: xs)
qed

lemma dll_Cons:
  "dll l (x # xs) \<longleftrightarrow>
     x \<notin> set xs \<and> distinct xs \<and> head l = Some x \<and> tail l = last_or (Some x) xs \<and>
     prev (nodes l x) = None \<and> next (nodes l x) = first_or None xs \<and>
     seg (nodes l) (Some x) xs None \<and> x < free l \<and> (\<forall>y \<in> set xs. y < free l)"
  by (auto simp: dll_def)

lemma Add_fst: "fst (Add k l) = free l"
  by (simp add: Add_def Let_def)

lemma Add_dll:
  assumes "dll l xs"
  shows "dll (snd (Add k l)) (free l # xs)"
proof (cases xs)
  case Nil
  with assms show ?thesis
    by (auto simp: Add_def Let_def dll_def)
next
  case (Cons x ys)
  with assms have "x < free l" "\<forall>y \<in> set ys. y < free l" "free l \<notin> set ys"
    by (auto simp: dll_def)
  with assms Cons show ?thesis
    by (auto simp: Add_def Let_def dll_Cons seg_frame less_Suc_eq)
qed

lemma Add_simps:
  "free (snd (Add k l)) = Suc (free l)"
  "nodeMap (snd (Add k l)) = (nodeMap l)(k \<mapsto> free l)"
  "key (nodes (snd (Add k l)) x) = (if x = free l then k else key (nodes l x))"
  by (simp_all add: Add_def Let_def split: option.split)

lemma MoveToFront_link_dll:
  assumes "dll l ys" and "n \<notin> set ys" and "n < free l" and "ys \<noteq> []"
  shows "dll (MoveToFront_link n l) (n # ys)"
proof -
  from assms(4) obtain y zs where ys: "ys = y # zs" by (cases ys) auto
  with assms have "y \<noteq> n" "n \<notin> set zs" by auto
  with assms(1,3) ys show ?thesis
    by (simp add: MoveToFront_link_def Let_def dll_Cons seg_frame)
qed

lemma MoveToFront_dll:
  assumes "dll l xs" and "n \<in> set xs"
  shows "dll (MoveToFront n l) (n # remove1 n xs)"
proof (cases "head l = Some n")
  case True
  with assms obtain ys where "xs = n # ys" by (cases xs) (auto simp: dll_def)
  with assms True show ?thesis by (simp add: MoveToFront_def)
next
  case False
  from assms have r: "dll (Remove (Some n) l) (remove1 n xs)" by (rule Remove_dll)
  from assms have d: "distinct xs" "n < free l" by (auto simp: dll_def)
  from False assms have "remove1 n xs \<noteq> []"
    by (cases xs) (auto simp: dll_def)
  with r d assms(2) have "dll (MoveToFront_link n (Remove (Some n) l)) (n # remove1 n xs)"
    by (intro MoveToFront_link_dll) (simp_all add: free_Remove)
  with False show ?thesis by (simp add: MoveToFront_def)
qed

lemma MoveToFront_simps:
  "free (MoveToFront n l) = free l"
  "key (nodes (MoveToFront n l) x) = key (nodes l x)"
  by (simp_all add: MoveToFront_def MoveToFront_link_def Let_def free_Remove key_Remove
        split: option.split)

lemma RemoveTail_dll:
  assumes "dll l xs"
  shows "dll (RemoveTail l) (butlast xs)"
proof (cases xs rule: rev_cases)
  case Nil
  with assms show ?thesis by (simp add: RemoveTail_def dll_def)
next
  case (snoc ys y)
  with assms have "tail l = Some y" by (simp add: dll_def last_or_append)
  moreover from assms snoc have "dll (Remove (Some y) l) (ys @ [])"
    by (intro Remove_dll_split) simp
  ultimately show ?thesis using snoc by (simp add: RemoveTail_def)
qed

section \<open>Evaluation on concrete inputs\<close>

lemmas lru_eval = NewLRUManager_def Add_def Remove_def Remove_head_def Remove_tail_def
  Remove_prev_def Remove_next_def Remove_key_def MoveToFront_def MoveToFront_link_def
  RemoveTail_def GetNode_def set_prev_def set_next_def Let_def

lemmas cache_eval = NewCache_def Cache_Get_def Cache_GetByEmail_def Cache_Set_def evict_def
  len_def int32_def user1_def user2_def user3_def user4_def

section \<open>The cache: round trip\<close>

lemma evict_ttl [simp]: "ttl (evict c) = ttl c"
  by (simp add: evict_def Let_def split: option.split)

lemma evict_maxSize [simp]: "maxSize (evict c) = maxSize c"
  by (simp add: evict_def Let_def split: option.split)

lemma Cache_Set_fields:
  "usersByID (Cache_Set ident user now c) ident =
     Some \<lparr>User = user, ExpiresAt = now + ttl c, lruNode = Some (free (lru (evict c)))\<rparr>"
  "usersByEmail (Cache_Set ident user now c) (Email user) =
     Some \<lparr>User = user, ExpiresAt = now + ttl c, lruNode = Some (free (lru (evict c)))\<rparr>"
  "ttl (Cache_Set ident user now c) = ttl c"
  by (simp_all add: Cache_Set_def Add_def Let_def split_beta)

lemma Cache_Get_hit:
  assumes "usersByID c ident = Some e" and "\<not> ExpiresAt e < now"
  shows "fst (Cache_Get ident now c) = (Some (User e), True)"
    and "usersByID (snd (Cache_Get ident now c)) = usersByID c"
    and "usersByEmail (snd (Cache_Get ident now c)) = usersByEmail c"
  using assms by (simp_all add: Cache_Get_def split: option.split)

lemma Cache_GetByEmail_hit:
  assumes "usersByEmail c email = Some e" and "\<not> ExpiresAt e < now"
    and "Account (User e) = MemoryAccount uuid"
  shows "fst (Cache_GetByEmail email now c) = (Some (User e), True)"
    and "usersByID (snd (Cache_GetByEmail email now c)) = usersByID c"
    and "usersByEmail (snd (Cache_GetByEmail email now c)) = usersByEmail c"
  using assms by (simp_all add: Cache_GetByEmail_def GetNode_def split: option.split)

text \<open>
  Claim C1. Let \<open>user\<close> be a record with a VLESS account, set into any cache under the
  identifier \<open>ident\<close> at time \<open>now\<close>. As long as the entry has not expired (the clock has
  not passed \<open>now + ttl\<close>), \<^verbatim>\<open>Get\<close> by the identifier and \<^verbatim>\<open>GetByEmail\<close> by the record's
  alias both return the record and report it found: each of them right after the \<^verbatim>\<open>Set\<close>,
  and each of them after the other one. The identifier of the claim is the UUID of the
  account, \<open>uuid = ident\<close>; the round trip does not depend on it.
\<close>

theorem Cache_round_trip:
  assumes "Account user = MemoryAccount uuid"
    and "t1 \<le> now + ttl c" and "t2 \<le> now + ttl c"
  shows
    "fst (Cache_Get ident t1 (Cache_Set ident user now c)) = (Some user, True) \<and>
     fst (Cache_GetByEmail (Email user) t1 (Cache_Set ident user now c)) = (Some user, True) \<and>
     fst (Cache_GetByEmail (Email user) t2 (snd (Cache_Get ident t1 (Cache_Set ident user now c))))
       = (Some user, True) \<and>
     fst (Cache_Get ident t2 (snd (Cache_GetByEmail (Email user) t1 (Cache_Set ident user now c))))
       = (Some user, True)"
proof -
  let ?c = "Cache_Set ident user now c"
  let ?e = "\<lparr>User = user, ExpiresAt = now + ttl c, lruNode = Some (free (lru (evict c)))\<rparr>"
  have i: "usersByID ?c ident = Some ?e" and m: "usersByEmail ?c (Email user) = Some ?e"
    by (rule Cache_Set_fields)+
  have l1: "\<not> ExpiresAt ?e < t1" and l2: "\<not> ExpiresAt ?e < t2"
    using assms(2,3) by simp_all
  have a: "Account (User ?e) = MemoryAccount uuid" using assms(1) by simp
  have 1: "fst (Cache_Get ident t1 ?c) = (Some user, True)"
    using Cache_Get_hit(1)[OF i l1] by simp
  have 2: "fst (Cache_GetByEmail (Email user) t1 ?c) = (Some user, True)"
    using Cache_GetByEmail_hit(1)[OF m l1 a] by simp
  have "usersByEmail (snd (Cache_Get ident t1 ?c)) (Email user) = Some ?e"
    using Cache_Get_hit(3)[OF i l1] m by simp
  from Cache_GetByEmail_hit(1)[OF this l2 a]
  have 3: "fst (Cache_GetByEmail (Email user) t2 (snd (Cache_Get ident t1 ?c))) = (Some user, True)"
    by simp
  have "usersByID (snd (Cache_GetByEmail (Email user) t1 ?c)) ident = Some ?e"
    using Cache_GetByEmail_hit(2)[OF m l1 a] i by simp
  from Cache_Get_hit(1)[OF this l2]
  have 4: "fst (Cache_Get ident t2 (snd (Cache_GetByEmail (Email user) t1 ?c))) = (Some user, True)"
    by simp
  from 1 2 3 4 show ?thesis by simp
qed

theorem Cache_round_trip_witness:
  "Account user1 = MemoryAccount ''u1'' \<and> 5 \<le> 0 + ttl (NewCache 10 2) \<and>
   10 \<le> 0 + ttl (NewCache 10 2) \<and>
   fst (Cache_Get ''u1'' 5 (Cache_Set ''u1'' user1 0 (NewCache 10 2))) = (Some user1, True) \<and>
   fst (Cache_GetByEmail ''a1@example.com'' 10
          (snd (Cache_Get ''u1'' 5 (Cache_Set ''u1'' user1 0 (NewCache 10 2))))) = (Some user1, True)"
  using Cache_round_trip[where user = user1 and uuid = "''u1''" and ident = "''u1''" and ?t1.0 = 5
      and now = 0 and c = "NewCache 10 2" and ?t2.0 = 10]
  by (simp add: user1_def NewCache_def)

section \<open>The cache: lazy expiry\<close>

lemma Cache_Set_eq:
  "Cache_Set ident user now c =
     (evict c)\<lparr>usersByID := (usersByID (evict c))(ident \<mapsto>
                   \<lparr>User = user, ExpiresAt = now + ttl c, lruNode = Some (free (lru (evict c)))\<rparr>),
                usersByEmail := (usersByEmail (evict c))(Email user \<mapsto>
                   \<lparr>User = user, ExpiresAt = now + ttl c, lruNode = Some (free (lru (evict c)))\<rparr>),
                lru := snd (Add ident (lru (evict c)))\<rparr>"
  by (simp add: Cache_Set_def Let_def split_beta Add_fst)

lemma Cache_Get_absent: "usersByID c ident = None \<Longrightarrow> Cache_Get ident now c = ((None, False), c)"
  by (simp add: Cache_Get_def)

lemma Cache_Get_expired:
  assumes "usersByID c ident = Some u" and "ExpiresAt u < now" and "lruNode u = Some n"
  shows "Cache_Get ident now c =
           ((None, False),
            c\<lparr>lru := Remove (Some n) (lru c), usersByID := (usersByID c)(ident := None),
              usersByEmail := (usersByEmail c)(Email (User u) := None)\<rparr>)"
  using assms by (simp add: Cache_Get_def)

lemma Cache_Get_live:
  assumes "usersByID c ident = Some u" and "\<not> ExpiresAt u < now" and "lruNode u = Some n"
  shows "Cache_Get ident now c = ((Some (User u), True), c\<lparr>lru := MoveToFront n (lru c)\<rparr>)"
  using assms by (simp add: Cache_Get_def)

lemma map_filter_skip:
  "m k = None \<Longrightarrow> List.map_filter m ks = List.map_filter m (removeAll k ks)"
  by (induction ks) (auto split: option.split)

lemma GetCount_skip:
  assumes "usersByID c k = None"
  shows "Cache_GetCount ks t c = Cache_GetCount (removeAll k ks) t c"
  using map_filter_skip[of "usersByID c" k ks] assms by (simp add: Cache_GetCount_def)

lemma Cache_GetByEmail_expired:
  assumes "usersByEmail c email = Some u" and "Account (User u) = MemoryAccount uuid"
    and "ExpiresAt u < now"
  shows "fst (Cache_GetByEmail email now c) = (None, False)"
    and "usersByID (snd (Cache_GetByEmail email now c)) uuid = None"
    and "usersByEmail (snd (Cache_GetByEmail email now c)) email = None"
    and "nodeMap (lru c) uuid = Some n \<Longrightarrow>
           lru (snd (Cache_GetByEmail email now c)) = Remove (Some n) (lru c)"
  using assms by (simp_all add: Cache_GetByEmail_def GetNode_def split: option.split)

lemma Cache_GetByEmail_absent:
  "usersByEmail c email = None \<Longrightarrow> Cache_GetByEmail email now c = ((None, False), c)"
  by (simp add: Cache_GetByEmail_def)

lemma evict_dll:
  assumes "dll (lru c) xs"
  shows "\<exists>ys. dll (lru (evict c)) ys" and "free (lru (evict c)) = free (lru c)"
  using assms RemoveTail_dll[OF assms]
  by (auto simp: evict_def Let_def RemoveTail_def free_Remove split: option.split)

lemma expiry_of_entry:
  assumes "usersByID c ident = Some u" and "ExpiresAt u < now" and "lruNode u = Some n"
    and "dll (lru c) xs" and "n \<in> set xs"
  shows "fst (Cache_Get ident now c) = (None, False) \<and>
      usersByID (snd (Cache_Get ident now c)) ident = None \<and>
      usersByEmail (snd (Cache_Get ident now c)) (Email (User u)) = None \<and>
      dll (lru (snd (Cache_Get ident now c))) (remove1 n xs) \<and> n \<notin> set (remove1 n xs) \<and>
      nodeMap (lru (snd (Cache_Get ident now c))) (key (nodes (lru c) n)) = None"
proof -
  from assms(4) have "distinct xs" by (simp add: dll_def)
  then have "n \<notin> set (remove1 n xs)" by simp
  with Remove_dll[OF assms(4,5)] show ?thesis
    by (simp add: Cache_Get_expired[OF assms(1,2,3)] nodeMap_Remove)
qed

lemma expiry_after_Set:
  assumes "Account user = MemoryAccount ident" and "since + ttl c < now"
  shows "fst (Cache_Get ident now (Cache_Set ident user since c)) = (None, False) \<and>
      fst (Cache_GetByEmail (Email user) now (Cache_Set ident user since c)) = (None, False) \<and>
      fst (Cache_GetByEmail (Email user) t (snd (Cache_Get ident now (Cache_Set ident user since c))))
        = (None, False) \<and>
      fst (Cache_Get ident t (snd (Cache_GetByEmail (Email user) now (Cache_Set ident user since c))))
        = (None, False) \<and>
      Cache_GetCount ks t (snd (Cache_Get ident now (Cache_Set ident user since c)))
        = Cache_GetCount (removeAll ident ks) t (snd (Cache_Get ident now (Cache_Set ident user since c))) \<and>
      Cache_GetCount ks t (snd (Cache_GetByEmail (Email user) now (Cache_Set ident user since c)))
        = Cache_GetCount (removeAll ident ks) t
            (snd (Cache_GetByEmail (Email user) now (Cache_Set ident user since c)))"
proof -
  let ?S = "Cache_Set ident user since c"
  let ?e = "\<lparr>User = user, ExpiresAt = since + ttl c, lruNode = Some (free (lru (evict c)))\<rparr>"
  have i: "usersByID ?S ident = Some ?e" and m: "usersByEmail ?S (Email user) = Some ?e"
    by (rule Cache_Set_fields)+
  have x: "ExpiresAt ?e < now" using assms(2) by simp
  have a: "Account (User ?e) = MemoryAccount ident" using assms(1) by simp
  have l: "lruNode ?e = Some (free (lru (evict c)))" by simp
  note g = Cache_Get_expired[OF i x l]
  have g1: "fst (Cache_Get ident now ?S) = (None, False)"
    and g2: "usersByID (snd (Cache_Get ident now ?S)) ident = None"
    and g3: "usersByEmail (snd (Cache_Get ident now ?S)) (Email user) = None"
    by (simp_all add: g)
  note b = Cache_GetByEmail_expired(1,2,3)[OF m a x]
  from g1 b(1) Cache_GetByEmail_absent[OF g3] Cache_Get_absent[OF b(2)]
    GetCount_skip[OF g2] GetCount_skip[OF b(2)]
  show ?thesis by simp
qed

lemma expiry_unlinks:
  assumes "dll (lru c) xs" and "since + ttl c < now"
  shows "\<exists>ys. dll (lru (Cache_Set ident user since c)) (free (lru c) # ys) \<and>
           dll (lru (snd (Cache_Get ident now (Cache_Set ident user since c)))) ys \<and>
           (Account user = MemoryAccount ident \<longrightarrow>
              dll (lru (snd (Cache_GetByEmail (Email user) now (Cache_Set ident user since c)))) ys)"
proof -
  let ?S = "Cache_Set ident user since c"
  let ?p = "free (lru (evict c))"
  let ?e = "\<lparr>User = user, ExpiresAt = since + ttl c, lruNode = Some ?p\<rparr>"
  from evict_dll[OF assms(1)] obtain ys where ys: "dll (lru (evict c)) ys"
    and f: "?p = free (lru c)" by auto
  have S: "lru ?S = snd (Add ident (lru (evict c)))" by (simp add: Cache_Set_eq)
  from Add_dll[OF ys, of ident] have d: "dll (lru ?S) (?p # ys)" by (simp add: S)
  from Remove_dll[OF d, of ?p] have r: "dll (Remove (Some ?p) (lru ?S)) ys" by simp
  have i: "usersByID ?S ident = Some ?e" and m: "usersByEmail ?S (Email user) = Some ?e"
    by (rule Cache_Set_fields)+
  have x: "ExpiresAt ?e < now" using assms(2) by simp
  have l: "lruNode ?e = Some ?p" by simp
  have 1: "dll (lru (snd (Cache_Get ident now ?S))) ys"
    using r by (simp add: Cache_Get_expired[OF i x l])
  have 2: "dll (lru (snd (Cache_GetByEmail (Email user) now ?S))) ys"
    if "Account user = MemoryAccount ident"
  proof -
    from that have a: "Account (User ?e) = MemoryAccount ident" by simp
    have n: "nodeMap (lru ?S) ident = Some ?p" by (simp add: S Add_simps)
    from Cache_GetByEmail_expired(4)[OF m a x n] r show ?thesis by simp
  qed
  from d 1 2 f show ?thesis by (intro exI[of _ ys]) simp
qed

lemma NewCache_dll: "dll (lru (NewCache t m)) []"
  by (simp add: dll_def NewCache_def NewLRUManager_def)

lemma one_entry_fields:
  "usersByID one_entry ''u1'' = Some \<lparr>User = user1, ExpiresAt = 10, lruNode = Some 0\<rparr>"
  "dll (lru one_entry) [0]"
  by (simp_all add: one_entry_def dll_def cache_eval lru_eval)

text \<open>
  Claim C2, as amended. The code compares with \<^verbatim>\<open>time.Now().After(ExpiresAt)\<close>: an entry
  has expired once the clock is strictly past its expiry instant, and at the instant
  itself it is still served (the counterexample). For an entry under the identifier whose
  expiry instant is strictly before the current time, and whose node is linked in a
  well-formed LRU list, \<^verbatim>\<open>Get\<close> reports not-found and in that call deletes the identifier
  from \<^verbatim>\<open>usersByID\<close>, the record's alias from \<^verbatim>\<open>usersByEmail\<close>, the node from the list and
  the node's key from the lookup map. After \<^verbatim>\<open>Set\<close> at time \<open>since\<close> and a wait of more than
  the TTL, \<^verbatim>\<open>Get\<close> and \<^verbatim>\<open>GetByEmail\<close> report not-found, each of them first or after the
  other; the identifier then contributes nothing to \<^verbatim>\<open>GetCount\<close>; and, the list being
  well formed before the \<^verbatim>\<open>Set\<close>, the node that \<^verbatim>\<open>Set\<close> linked at the head is unlinked
  again by either lookup.
\<close>

theorem lazy_expiry:
  "(usersByID c ident = Some u \<and> ExpiresAt u < now \<and> lruNode u = Some n \<and>
    dll (lru c) xs \<and> n \<in> set xs \<longrightarrow>
      fst (Cache_Get ident now c) = (None, False) \<and>
      usersByID (snd (Cache_Get ident now c)) ident = None \<and>
      usersByEmail (snd (Cache_Get ident now c)) (Email (User u)) = None \<and>
      dll (lru (snd (Cache_Get ident now c))) (remove1 n xs) \<and> n \<notin> set (remove1 n xs) \<and>
      nodeMap (lru (snd (Cache_Get ident now c))) (key (nodes (lru c) n)) = None) \<and>
   (Account user = MemoryAccount ident \<and> since + ttl c < now \<longrightarrow>
      fst (Cache_Get ident now (Cache_Set ident user since c)) = (None, False) \<and>
      fst (Cache_GetByEmail (Email user) now (Cache_Set ident user since c)) = (None, False) \<and>
      fst (Cache_GetByEmail (Email user) t (snd (Cache_Get ident now (Cache_Set ident user since c))))
        = (None, False) \<and>
      fst (Cache_Get ident t (snd (Cache_GetByEmail (Email user) now (Cache_Set ident user since c))))
        = (None, False) \<and>
      Cache_GetCount ks t (snd (Cache_Get ident now (Cache_Set ident user since c)))
        = Cache_GetCount (removeAll ident ks) t (snd (Cache_Get ident now (Cache_Set ident user since c))) \<and>
      Cache_GetCount ks t (snd (Cache_GetByEmail (Email user) now (Cache_Set ident user since c)))
        = Cache_GetCount (removeAll ident ks) t
            (snd (Cache_GetByEmail (Email user) now (Cache_Set ident user since c)))) \<and>
   (dll (lru c) xs \<and> since + ttl c < now \<longrightarrow>
      (\<exists>ys. dll (lru (Cache_Set ident user since c)) (free (lru c) # ys) \<and>
            dll (lru (snd (Cache_Get ident now (Cache_Set ident user since c)))) ys \<and>
            (Account user = MemoryAccount ident \<longrightarrow>
               dll (lru (snd (Cache_GetByEmail (Email user) now (Cache_Set ident user since c)))) ys)))"
proof (intro conjI impI)
  assume h: "usersByID c ident = Some u \<and> ExpiresAt u < now \<and> lruNode u = Some n \<and>
    dll (lru c) xs \<and> n \<in> set xs"
  then have "usersByID c ident = Some u" "ExpiresAt u < now" "lruNode u = Some n"
    "dll (lru c) xs" "n \<in> set xs" by blast+
  note a = expiry_of_entry[OF this]
  from a show "fst (Cache_Get ident now c) = (None, False)" by blast
  from a show "usersByID (snd (Cache_Get ident now c)) ident = None" by blast
  from a show "usersByEmail (snd (Cache_Get ident now c)) (Email (User u)) = None" by blast
  from a show "dll (lru (snd (Cache_Get ident now c))) (remove1 n xs)" by blast
  from a show "n \<notin> set (remove1 n xs)" by blast
  from a show "nodeMap (lru (snd (Cache_Get ident now c))) (key (nodes (lru c) n)) = None" by blast
next
  assume h: "Account user = MemoryAccount ident \<and> since + ttl c < now"
  note a = expiry_after_Set[OF conjunct1[OF h] conjunct2[OF h], of t ks]
  from a show "fst (Cache_Get ident now (Cache_Set ident user since c)) = (None, False)" by blast
  from a show "fst (Cache_GetByEmail (Email user) now (Cache_Set ident user since c)) = (None, False)"
    by blast
  from a show "fst (Cache_GetByEmail (Email user) t (snd (Cache_Get ident now (Cache_Set ident user since c))))
        = (None, False)" by blast
  from a show "fst (Cache_Get ident t (snd (Cache_GetByEmail (Email user) now (Cache_Set ident user since c))))
        = (None, False)" by blast
  from a show "Cache_GetCount ks t (snd (Cache_Get ident now (Cache_Set ident user since c)))
        = Cache_GetCount (removeAll ident ks) t (snd (Cache_Get ident now (Cache_Set ident user since c)))"
    by blast
  from a show "Cache_GetCount ks t (snd (Cache_GetByEmail (Email user) now (Cache_Set ident user since c)))
        = Cache_GetCount (removeAll ident ks) t
            (snd (Cache_GetByEmail (Email user) now (Cache_Set ident user since c)))" by blast
next
  assume h: "dll (lru c) xs \<and> since + ttl c < now"
  from expiry_unlinks[OF conjunct1[OF h] conjunct2[OF h]]
  show "\<exists>ys. dll (lru (Cache_Set ident user since c)) (free (lru c) # ys) \<and>
            dll (lru (snd (Cache_Get ident now (Cache_Set ident user since c)))) ys \<and>
            (Account user = MemoryAccount ident \<longrightarrow>
               dll (lru (snd (Cache_GetByEmail (Email user) now (Cache_Set ident user since c)))) ys)" .
qed

theorem lazy_expiry_witness:
  "usersByID one_entry ''u1'' = Some \<lparr>User = user1, ExpiresAt = 10, lruNode = Some 0\<rparr> \<and>
   dll (lru one_entry) [0] \<and>
   fst (Cache_Get ''u1'' 11 one_entry) = (None, False) \<and>
   usersByID (snd (Cache_Get ''u1'' 11 one_entry)) ''u1'' = None \<and>
   usersByEmail (snd (Cache_Get ''u1'' 11 one_entry)) ''a1@example.com'' = None \<and>
   dll (lru (snd (Cache_Get ''u1'' 11 one_entry))) [] \<and>
   Account user1 = MemoryAccount ''u1'' \<and> 0 + ttl (NewCache 10 2) < 11 \<and>
   fst (Cache_GetByEmail ''a1@example.com'' 11 (Cache_Set ''u1'' user1 0 (NewCache 10 2)))
     = (None, False) \<and>
   Cache_GetCount [''u1''] 12 (snd (Cache_Get ''u1'' 11 (Cache_Set ''u1'' user1 0 (NewCache 10 2)))) = 0 \<and>
   dll (lru (NewCache 10 2)) [] \<and>
   (\<exists>ys. dll (lru (snd (Cache_GetByEmail ''a1@example.com'' 11
                 (Cache_Set ''u1'' user1 0 (NewCache 10 2))))) ys)"
  using
    lazy_expiry[where c = one_entry and ident = "''u1''" and now = 11 and n = 0 and xs = "[0]"
      and u = "\<lparr>User = user1, ExpiresAt = 10, lruNode = Some 0\<rparr>"]
    lazy_expiry[where c = "NewCache 10 2" and ident = "''u1''" and user = user1 and since = 0
      and now = 11 and t = 12 and ks = "[''u1'']" and xs = "[]"]
    one_entry_fields NewCache_dll[of 10 2]
  by (simp add: Cache_GetCount_def) (auto simp: user1_def NewCache_def)

theorem lazy_expiry_counterexample:
  "usersByID one_entry ''u1'' = Some \<lparr>User = user1, ExpiresAt = 10, lruNode = Some 0\<rparr> \<and>
   fst (Cache_Get ''u1'' 10 one_entry) = (Some user1, True) \<and>
   usersByID (snd (Cache_Get ''u1'' 10 one_entry)) ''u1''
     = Some \<lparr>User = user1, ExpiresAt = 10, lruNode = Some 0\<rparr>"
  by (simp add: one_entry_def cache_eval lru_eval)

section \<open>The cache: capacity and eviction order\<close>

lemma int32_id: "0 \<le> x \<Longrightarrow> x < 2147483648 \<Longrightarrow> int32 x = x"
  by (simp add: int32_def)

lemma len_inv: "cache_inv c xs \<Longrightarrow> len (usersByID c) = int (length xs)"
proof -
  assume a: "cache_inv c xs"
  then have "card (dom (usersByID c)) = card (set (map (node_key c) xs))"
    by (simp add: cache_inv_def)
  also from a have "\<dots> = length (map (node_key c) xs)"
    unfolding cache_inv_def by (intro distinct_card) simp
  finally show ?thesis by (simp add: len_def)
qed

lemma inv_entry:
  assumes "cache_inv c xs" and "usersByID c i = Some u"
  shows "\<exists>n. lruNode u = Some n \<and> n \<in> set xs \<and> node_key c n = i"
proof -
  from assms have "i \<in> node_key c ` set xs" by (auto simp: cache_inv_def)
  then obtain x where x: "x \<in> set xs" "node_key c x = i" by auto
  with assms show ?thesis by (auto simp: cache_inv_def)
qed

lemma inv_key_inj:
  "cache_inv c xs \<Longrightarrow> x \<in> set xs \<Longrightarrow> y \<in> set xs \<Longrightarrow> node_key c x = node_key c y \<Longrightarrow> x = y"
  by (auto simp: cache_inv_def distinct_map dest: inj_onD)

lemma evict_idle: "\<not> (0 < maxSize c \<and> maxSize c \<le> int32 (len (usersByID c))) \<Longrightarrow> evict c = c"
  unfolding evict_def by (simp only: if_False)

lemma full_int32:
  assumes "cache_inv c xs" and "bounded c xs"
  shows "(0 < maxSize c \<and> maxSize c \<le> int32 (len (usersByID c))) = full c xs"
proof (cases "0 < maxSize c")
  case True
  with assms(2) have "int32 (int (length xs)) = int (length xs)"
    by (intro int32_id) (auto simp: bounded_def)
  with True assms(1) show ?thesis by (simp add: len_inv full_def)
next
  case False
  then show ?thesis by (simp add: full_def)
qed

lemma evict_full:
  assumes "cache_inv c (ys @ [t])" and "bounded c (ys @ [t])" and "full c (ys @ [t])"
  shows "\<exists>u. usersByID c (node_key c t) = Some u \<and>
           evict c = c\<lparr>usersByID := (usersByID c)(node_key c t := None),
                       usersByEmail := (usersByEmail c)(Email (User u) := None),
                       lru := Remove (Some t) (lru c)\<rparr>"
proof -
  from assms(1) obtain u where u: "usersByID c (node_key c t) = Some u"
    by (auto simp: cache_inv_def)
  from assms(1) have t: "tail (lru c) = Some t"
    by (simp add: cache_inv_def dll_def last_or_append)
  from full_int32[OF assms(1,2)] assms(3)
  have "0 < maxSize c \<and> maxSize c \<le> int32 (len (usersByID c))" by simp
  with u t show ?thesis
    by (simp add: evict_def RemoveTail_def node_key_def)
qed

lemma evict_inv_full:
  assumes "cache_inv c (ys @ [t])" and "bounded c (ys @ [t])" and "full c (ys @ [t])"
  shows "cache_inv (evict c) ys" and "recency (evict c) ys = recency c ys"
    and "free (lru (evict c)) = free (lru c)"
    and "dom (usersByID (evict c)) = dom (usersByID c) - {node_key c t}"
proof -
  from evict_full[OF assms] obtain u :: User where
    e: "evict c = c\<lparr>usersByID := (usersByID c)(node_key c t := None),
                       usersByEmail := (usersByEmail c)(Email (User u) := None),
                       lru := Remove (Some t) (lru c)\<rparr>"
    by blast
  have k: "node_key (evict c) = node_key c"
    by (rule ext) (simp add: e node_key_def key_Remove)
  from assms(1) have d: "dll (lru (evict c)) ys"
    using Remove_dll_split[of "lru c" ys t "[]"] by (simp add: e cache_inv_def)
  from assms(1) have n: "node_key c t \<notin> node_key c ` set ys" and dk: "distinct (map (node_key c) ys)"
    by (auto simp: cache_inv_def)
  from assms(1) n have dm: "dom (usersByID (evict c)) = node_key c ` set ys"
    by (auto simp: e cache_inv_def)
  have ne: "node_key c x \<noteq> node_key c t" if "x \<in> set ys" for x
    using that n by (metis imageI)
  have en: "\<forall>x \<in> set ys. \<exists>u. usersByID (evict c) (node_key c x) = Some u \<and> lruNode u = Some x"
  proof
    fix x assume x: "x \<in> set ys"
    then have "node_key c x \<noteq> node_key c t" by (rule ne)
    moreover from assms(1) x obtain v where "usersByID c (node_key c x) = Some v" "lruNode v = Some x"
      by (auto simp: cache_inv_def)
    ultimately show "\<exists>u. usersByID (evict c) (node_key c x) = Some u \<and> lruNode u = Some x"
      by (simp add: e)
  qed
  from d dk dm en show "cache_inv (evict c) ys" by (simp add: cache_inv_def k)
  have same: "usersByID (evict c) (node_key c x) = usersByID c (node_key c x)" if "x \<in> set ys" for x
    using ne[OF that] by (simp add: e)
  show "recency (evict c) ys = recency c ys"
    unfolding recency_def k by (rule map_cong) (simp_all add: same)
  show "free (lru (evict c)) = free (lru c)" by (simp add: e free_Remove)
  show "dom (usersByID (evict c)) = dom (usersByID c) - {node_key c t}" by (auto simp: e)
qed

lemma evict_inv:
  assumes "cache_inv c xs" and "bounded c xs"
  shows "cache_inv (evict c) (survivors c xs)"
    and "recency (evict c) (survivors c xs) = (if full c xs then butlast (recency c xs) else recency c xs)"
    and "free (lru (evict c)) = free (lru c)"
    and "dom (usersByID (evict c)) \<subseteq> dom (usersByID c)"
proof -
  have "cache_inv (evict c) (survivors c xs) \<and>
        recency (evict c) (survivors c xs) = (if full c xs then butlast (recency c xs) else recency c xs) \<and>
        free (lru (evict c)) = free (lru c) \<and> dom (usersByID (evict c)) \<subseteq> dom (usersByID c)"
  proof (cases "full c xs")
    case False
    with full_int32[OF assms] have "evict c = c" by (intro evict_idle) simp
    with False assms(1) show ?thesis by (simp add: survivors_def)
  next
    case True
    then have "xs \<noteq> []" by (auto simp: full_def)
    then obtain ys t where xs: "xs = ys @ [t]" by (cases xs rule: rev_cases) auto
    from evict_inv_full[OF assms(1,2)[unfolded xs] True[unfolded xs]] True xs
    show ?thesis by (auto simp: survivors_def recency_def map_butlast[symmetric])
  qed
  then show "cache_inv (evict c) (survivors c xs)"
    and "recency (evict c) (survivors c xs) = (if full c xs then butlast (recency c xs) else recency c xs)"
    and "free (lru (evict c)) = free (lru c)"
    and "dom (usersByID (evict c)) \<subseteq> dom (usersByID c)"
    by simp_all
qed

lemma recency_Cons:
  "recency c (x # xs) = (node_key c x, ExpiresAt (the (usersByID c (node_key c x)))) # recency c xs"
  by (simp add: recency_def)

lemma insert_inv:
  assumes "cache_inv c ys" and "ident \<notin> dom (usersByID c)"
    and c': "c' = c\<lparr>usersByID := (usersByID c)(ident \<mapsto> e), usersByEmail := m,
                     lru := snd (Add ident (lru c))\<rparr>"
    and e: "lruNode e = Some (free (lru c))"
  shows "cache_inv c' (free (lru c) # ys)"
    and "recency c' (free (lru c) # ys) = (ident, ExpiresAt e) # recency c ys"
proof -
  let ?p = "free (lru c)"
  from assms(1) have lt: "\<forall>x \<in> set ys. x < ?p" by (simp add: cache_inv_def dll_def)
  have k: "node_key c' x = node_key c x" if "x \<in> set ys" for x
    using that lt by (auto simp: c' node_key_def Add_simps)
  have kp: "node_key c' ?p = ident" by (simp add: c' node_key_def Add_simps)
  from assms(1,2) have ni: "ident \<notin> node_key c ` set ys" by (simp add: cache_inv_def)
  have ne: "node_key c x \<noteq> ident" if "x \<in> set ys" for x
    using that ni by (metis imageI)
  have d: "dll (lru c') (?p # ys)"
    using assms(1) by (simp add: c' cache_inv_def Add_dll)
  have mk: "map (node_key c') ys = map (node_key c) ys"
    by (rule map_cong) (simp_all add: k)
  have dk: "distinct (map (node_key c') (?p # ys))"
    using assms(1) ni by (simp add: kp mk cache_inv_def)
  have "dom (usersByID c') = insert ident (dom (usersByID c))" by (simp add: c')
  moreover have "node_key c' ` set ys = node_key c ` set ys"
    by (rule image_cong) (simp_all add: k)
  ultimately have dm: "dom (usersByID c') = node_key c' ` set (?p # ys)"
    using assms(1) by (simp add: kp cache_inv_def)
  have same: "usersByID c' (node_key c x) = usersByID c (node_key c x)" if "x \<in> set ys" for x
    using ne[OF that] by (simp add: c')
  have en: "\<forall>x \<in> set (?p # ys). \<exists>u. usersByID c' (node_key c' x) = Some u \<and> lruNode u = Some x"
  proof
    fix x assume "x \<in> set (?p # ys)"
    then consider "x = ?p" | "x \<in> set ys" by auto
    then show "\<exists>u. usersByID c' (node_key c' x) = Some u \<and> lruNode u = Some x"
    proof cases
      case 1
      then show ?thesis by (simp add: kp) (simp add: c' e)
    next
      case 2
      with assms(1) obtain v where "usersByID c (node_key c x) = Some v" "lruNode v = Some x"
        by (auto simp: cache_inv_def)
      with 2 show ?thesis by (simp add: k same)
    qed
  qed
  from d dk dm en show "cache_inv c' (?p # ys)" by (simp add: cache_inv_def)
  have r: "recency c' ys = recency c ys"
    unfolding recency_def by (rule map_cong) (simp_all add: k same)
  have "usersByID c' ident = Some e" by (simp add: c')
  then show "recency c' (?p # ys) = (ident, ExpiresAt e) # recency c ys"
    by (simp only: recency_Cons r kp option.sel)
qed

lemma Cache_Set_inv:
  assumes "cache_inv c xs" and "bounded c xs" and "ident \<notin> dom (usersByID c)"
  shows "cache_inv (Cache_Set ident user now c) (free (lru c) # survivors c xs)"
    and "recency (Cache_Set ident user now c) (free (lru c) # survivors c xs)
           = (ident, now + ttl c) # (if full c xs then butlast (recency c xs) else recency c xs)"
proof -
  note e = evict_inv[OF assms(1,2)]
  from e(4) assms(3) have n: "ident \<notin> dom (usersByID (evict c))" by auto
  let ?e = "\<lparr>User = user, ExpiresAt = now + ttl c, lruNode = Some (free (lru (evict c)))\<rparr>"
  have l: "lruNode ?e = Some (free (lru (evict c)))" by simp
  from insert_inv[OF e(1) n Cache_Set_eq l]
  show "cache_inv (Cache_Set ident user now c) (free (lru c) # survivors c xs)"
    and "recency (Cache_Set ident user now c) (free (lru c) # survivors c xs)
           = (ident, now + ttl c) # (if full c xs then butlast (recency c xs) else recency c xs)"
    by (simp_all add: e(2,3))
qed

lemma recency_keys: "map fst (recency c xs) = map (node_key c) xs"
  by (simp add: recency_def comp_def)

lemma recency_length: "length (recency c xs) = length xs"
  by (simp add: recency_def)

lemma map_of_recency_None:
  "cache_inv c xs \<Longrightarrow> usersByID c ident = None \<Longrightarrow> map_of (recency c xs) ident = None"
proof -
  assume a: "cache_inv c xs" "usersByID c ident = None"
  then have "ident \<notin> node_key c ` set xs" by (auto simp: cache_inv_def)
  then have "ident \<notin> set (map fst (recency c xs))" by (simp add: recency_keys)
  then show ?thesis by (simp add: map_of_eq_None_iff)
qed

lemma map_of_recency_Some:
  assumes "cache_inv c xs" and "n \<in> set xs" and "usersByID c (node_key c n) = Some u"
  shows "map_of (recency c xs) (node_key c n) = Some (ExpiresAt u)"
proof -
  from assms(1) have "distinct (map fst (recency c xs))"
    by (simp add: recency_keys cache_inv_def)
  moreover from assms(2,3) have "(node_key c n, ExpiresAt u) \<in> set (recency c xs)"
    by (force simp: recency_def)
  ultimately show ?thesis by (rule map_of_is_SomeI)
qed

lemma filter_recency:
  assumes "cache_inv c xs" and "n \<in> set xs"
  shows "filter (\<lambda>p. fst p \<noteq> node_key c n) (recency c xs) = recency c (remove1 n xs)"
proof -
  from assms(1) have d: "distinct xs" by (simp add: cache_inv_def dll_def)
  have "filter (\<lambda>x. node_key c x \<noteq> node_key c n) xs = filter (\<lambda>x. x \<noteq> n) xs"
    using inv_key_inj[OF assms(1) _ assms(2)] by (intro filter_cong) auto
  also have "\<dots> = remove1 n xs"
    using d by (simp add: distinct_remove1_removeAll removeAll_filter_not_eq eq_commute)
  finally show ?thesis by (simp add: recency_def filter_map comp_def)
qed

lemma delete_inv:
  assumes "cache_inv c xs" and "n \<in> set xs"
    and c': "c' = c\<lparr>lru := Remove (Some n) (lru c),
                     usersByID := (usersByID c)(node_key c n := None), usersByEmail := m\<rparr>"
  shows "cache_inv c' (remove1 n xs)" and "recency c' (remove1 n xs) = recency c (remove1 n xs)"
proof -
  let ?ys = "remove1 n xs"
  from assms(1) have dx: "distinct xs" by (simp add: cache_inv_def dll_def)
  then have s: "set ?ys = set xs - {n}" by simp
  have k: "node_key c' = node_key c"
    by (rule ext) (simp add: c' node_key_def key_Remove)
  have ne: "node_key c x \<noteq> node_key c n" if "x \<in> set ?ys" for x
    using that s inv_key_inj[OF assms(1) _ assms(2), of x] by auto
  have same: "usersByID c' (node_key c x) = usersByID c (node_key c x)" if "x \<in> set ?ys" for x
    using ne[OF that] by (simp add: c')
  have d: "dll (lru c') ?ys"
    using assms(1,2) by (simp add: c' cache_inv_def Remove_dll)
  have dk: "distinct (map (node_key c) ?ys)"
    using assms(1) by (simp add: cache_inv_def distinct_map inj_on_def)
  have "node_key c ` set ?ys = node_key c ` set xs - {node_key c n}"
    using s ne assms(2) by auto
  with assms(1) have dm: "dom (usersByID c') = node_key c ` set ?ys"
    by (simp add: c' cache_inv_def)
  have en: "\<forall>x \<in> set ?ys. \<exists>u. usersByID c' (node_key c x) = Some u \<and> lruNode u = Some x"
  proof
    fix x assume x: "x \<in> set ?ys"
    with s assms(1) obtain v where "usersByID c (node_key c x) = Some v" "lruNode v = Some x"
      by (auto simp: cache_inv_def)
    with x show "\<exists>u. usersByID c' (node_key c x) = Some u \<and> lruNode u = Some x"
      by (simp add: same)
  qed
  from d dk dm en show "cache_inv c' ?ys" by (simp add: cache_inv_def k)
  show "recency c' ?ys = recency c ?ys"
    unfolding recency_def k by (rule map_cong) (simp_all add: same)
qed

lemma touch_inv:
  assumes "cache_inv c xs" and "n \<in> set xs" and c': "c' = c\<lparr>lru := MoveToFront n (lru c)\<rparr>"
  shows "cache_inv c' (n # remove1 n xs)"
    and "recency c' (n # remove1 n xs)
           = (node_key c n, ExpiresAt (the (usersByID c (node_key c n)))) # recency c (remove1 n xs)"
proof -
  let ?ys = "n # remove1 n xs"
  from assms(1) have dx: "distinct xs" by (simp add: cache_inv_def dll_def)
  with assms(2) have s: "set ?ys = set xs" and dy: "distinct ?ys" by auto
  have k: "node_key c' = node_key c"
    by (rule ext) (simp add: c' node_key_def MoveToFront_simps)
  have u: "usersByID c' = usersByID c" by (simp add: c')
  have d: "dll (lru c') ?ys"
    using assms(1,2) by (simp add: c' cache_inv_def MoveToFront_dll)
  from assms(1) have "inj_on (node_key c) (set xs)" by (simp add: cache_inv_def distinct_map)
  with s dy have dk: "distinct (map (node_key c) ?ys)"
    by (simp only: distinct_map)
  from d dk assms(1) show "cache_inv c' ?ys"
    unfolding cache_inv_def k u s by simp
  show "recency c' ?ys
      = (node_key c n, ExpiresAt (the (usersByID c (node_key c n)))) # recency c (remove1 n xs)"
    by (simp add: recency_def k u)
qed

lemma Cache_Get_params [simp]:
  "maxSize (snd (Cache_Get ident now c)) = maxSize c" "ttl (snd (Cache_Get ident now c)) = ttl c"
  by (simp_all add: Cache_Get_def Let_def split: option.split)

lemma Cache_Set_params [simp]:
  "maxSize (Cache_Set ident user now c) = maxSize c" "ttl (Cache_Set ident user now c) = ttl c"
  by (simp_all add: Cache_Set_eq)

lemma Cache_Get_sim:
  assumes "cache_inv c xs"
  shows "\<exists>ys. cache_inv (snd (Cache_Get ident now c)) ys \<and>
              recency (snd (Cache_Get ident now c)) ys = spec_Get ident now (recency c xs) \<and>
              length ys \<le> length xs"
proof (cases "usersByID c ident")
  case None
  with assms show ?thesis
    by (auto simp: Cache_Get_absent spec_Get_def map_of_recency_None)
next
  case (Some u)
  from inv_entry[OF assms Some] obtain n where
    n: "lruNode u = Some n" "n \<in> set xs" "node_key c n = ident" by blast
  from Some n(3) have un: "usersByID c (node_key c n) = Some u" by simp
  have m: "map_of (recency c xs) ident = Some (ExpiresAt u)"
    using map_of_recency_Some[OF assms n(2) un] n(3) by simp
  have f: "filter (\<lambda>p. fst p \<noteq> ident) (recency c xs) = recency c (remove1 n xs)"
    using filter_recency[OF assms n(2)] n(3) by simp
  have l: "length (remove1 n xs) < length xs"
    using n(2) by (simp add: length_remove1) (cases xs; simp)
  show ?thesis
  proof (cases "ExpiresAt u < now")
    case True
    let ?c = "c\<lparr>lru := Remove (Some n) (lru c), usersByID := (usersByID c)(node_key c n := None),
                 usersByEmail := (usersByEmail c)(Email (User u) := None)\<rparr>"
    have g: "snd (Cache_Get ident now c) = ?c"
      using Cache_Get_expired[OF Some True n(1)] n(3) by simp
    from delete_inv[OF assms n(2), of ?c] True m f l show ?thesis
      by (intro exI[of _ "remove1 n xs"]) (simp add: g spec_Get_def)
  next
    case False
    let ?c = "c\<lparr>lru := MoveToFront n (lru c)\<rparr>"
    have g: "snd (Cache_Get ident now c) = ?c"
      using Cache_Get_live[OF Some False n(1)] by simp
    from touch_inv[OF assms n(2), of ?c] False m f l un n(3) show ?thesis
      by (intro exI[of _ "n # remove1 n xs"]) (simp add: g spec_Get_def)
  qed
qed

lemma Cache_Set_sim:
  assumes "cache_inv c xs" and "bounded c xs" and "ident \<notin> fst ` set (recency c xs)"
  shows "\<exists>ys. cache_inv (Cache_Set ident user now c) ys \<and>
              recency (Cache_Set ident user now c) ys
                = spec_Set (maxSize c) (ttl c) ident now (recency c xs) \<and>
              bounded (Cache_Set ident user now c) ys"
proof -
  from assms(1,3) have n: "ident \<notin> dom (usersByID c)"
    by (simp add: cache_inv_def recency_keys flip: set_map)
  let ?ys = "free (lru c) # survivors c xs"
  note s = Cache_Set_inv[OF assms(1,2) n, of user now]
  have r: "recency (Cache_Set ident user now c) ?ys
             = spec_Set (maxSize c) (ttl c) ident now (recency c xs)"
    by (simp add: s(2) spec_Set_def full_def recency_length)
  have b: "bounded (Cache_Set ident user now c) ?ys"
    using assms(2) by (auto simp: bounded_def survivors_def full_def)
  from s(1) r b show ?thesis by blast
qed

lemma step_params [simp]: "maxSize (step x c) = maxSize c" "ttl (step x c) = ttl c"
  by (cases x; simp)+

lemma run_params: "maxSize (run ops c) = maxSize c" "ttl (run ops c) = ttl c"
  by (induction ops arbitrary: c) simp_all

lemma run_sim:
  assumes "cache_inv c xs" and "bounded c xs"
    and "admissible (maxSize c) (ttl c) ops (recency c xs)"
  shows "\<exists>ys. cache_inv (run ops c) ys \<and> bounded (run ops c) ys \<and>
              recency (run ops c) ys = spec_run (maxSize c) (ttl c) ops (recency c xs)"
  using assms
proof (induction ops arbitrary: c xs)
  case Nil
  then show ?case by auto
next
  case (Cons x ops)
  have "\<exists>ys. cache_inv (step x c) ys \<and> bounded (step x c) ys \<and>
              recency (step x c) ys = spec_step (maxSize c) (ttl c) x (recency c xs)"
  proof (cases x)
    case (OpSet ident user now)
    with Cons.prems Cache_Set_sim[of c xs ident user now] show ?thesis by auto
  next
    case (OpGet ident now)
    from Cache_Get_sim[OF Cons.prems(1), of ident now] obtain ys where
      ys: "cache_inv (snd (Cache_Get ident now c)) ys"
        "recency (snd (Cache_Get ident now c)) ys = spec_Get ident now (recency c xs)"
        "length ys \<le> length xs"
      by blast
    from Cons.prems(2) ys(3) have "bounded (snd (Cache_Get ident now c)) ys"
      by (auto simp: bounded_def)
    with ys OpGet show ?thesis by auto
  qed
  then obtain ys where ys: "cache_inv (step x c) ys" "bounded (step x c) ys"
    "recency (step x c) ys = spec_step (maxSize c) (ttl c) x (recency c xs)"
    by blast
  from Cons.prems(3) have "admissible (maxSize c) (ttl c) ops (spec_step (maxSize c) (ttl c) x (recency c xs))"
    by (cases x) simp_all
  with ys have "admissible (maxSize (step x c)) (ttl (step x c)) ops (recency (step x c) ys)"
    by simp
  from Cons.IH[OF ys(1,2) this] ys(3) show ?case by simp
qed

lemma NewCache_inv: "cache_inv (NewCache t m) []" "recency (NewCache t m) [] = []"
  "maxSize (NewCache t m) = m" "ttl (NewCache t m) = t"
  by (simp_all add: cache_inv_def dll_def NewCache_def NewLRUManager_def recency_def)

lemma NewCache_bounded: "m < 2147483648 \<Longrightarrow> bounded (NewCache t m) []"
  by (simp add: bounded_def NewCache_def)

lemma inv_resident:
  assumes "cache_inv c xs" and "bounded c xs" and "recency c xs = l"
  shows "dom (usersByID c) = fst ` set l" and "len (usersByID c) = int (length l)"
    and "0 < maxSize c \<Longrightarrow> len (usersByID c) \<le> maxSize c"
    and "dll (lru c) xs" and "map (node_key c) xs = map fst l"
proof -
  from assms(3) have k: "map fst l = map (node_key c) xs" and n: "length l = length xs"
    by (auto simp: recency_keys recency_length)
  from assms(1) k show "dom (usersByID c) = fst ` set l"
    by (simp add: cache_inv_def flip: set_map)
  from assms(1) n show "len (usersByID c) = int (length l)" by (simp add: len_inv)
  from assms(1,2) show "0 < maxSize c \<Longrightarrow> len (usersByID c) \<le> maxSize c"
    by (simp add: len_inv bounded_def)
  from assms(1) show "dll (lru c) xs" by (simp add: cache_inv_def)
  from k show "map (node_key c) xs = map fst l" by simp
qed

lemma spec_Set_keys:
  "0 < m \<Longrightarrow> int (length l) \<le> m \<Longrightarrow>
     map fst (spec_Set m t ident now l) = take (nat m) (ident # map fst l)"
proof -
  assume a: "0 < m" "int (length l) \<le> m"
  then obtain k where k: "nat m = Suc k" by (cases "nat m") auto
  have tk: "take (nat m) (ident # map fst l) = ident # take k (map fst l)"
    by (simp add: k)
  show ?thesis
  proof (cases "m \<le> int (length l)")
    case True
    with a k have "length l = Suc k" by linarith
    then have "take k (map fst l) = butlast (map fst l)"
      by (simp add: butlast_conv_take)
    with True a(1) show ?thesis by (simp add: spec_Set_def map_butlast tk)
  next
    case False
    with k have "length l \<le> k" by linarith
    with False show ?thesis by (simp add: spec_Set_def tk)
  qed
qed

lemma spec_Set_length:
  "0 < m \<Longrightarrow> int (length l) \<le> m \<Longrightarrow> int (length (spec_Set m t ident now l)) \<le> m"
  by (auto simp: spec_Set_def)

lemma inserts_spec:
  assumes "0 < m" and "int (length l) \<le> m"
  shows "map fst (spec_run m t (inserts ins) l) = take (nat m) (rev (map fst ins) @ map fst l)"
  using assms(2)
proof (induction ins arbitrary: l)
  case Nil
  then show ?case by (simp add: inserts_def)
next
  case (Cons a ins)
  obtain ident user now where a: "a = (ident, user, now)" by (cases a)
  let ?l = "spec_Set m t ident now l"
  from spec_Set_length[OF assms(1) Cons.prems] have "int (length ?l) \<le> m" .
  from Cons.IH[OF this]
  have "map fst (spec_run m t (inserts ins) ?l) = take (nat m) (rev (map fst ins) @ map fst ?l)" .
  also have "\<dots> = take (nat m) (rev (map fst ins) @ ident # map fst l)"
    by (simp add: spec_Set_keys[OF assms(1) Cons.prems] min_def)
  finally show ?case by (simp add: a inserts_def)
qed

lemma disjoint_step: "C \<subseteq> insert i B \<Longrightarrow> i \<notin> A \<Longrightarrow> A \<inter> B = {} \<Longrightarrow> A \<inter> C = {}"
  by blast

lemma inserts_admissible:
  assumes "distinct (map fst ins)" and "set (map fst ins) \<inter> fst ` set l = {}"
  shows "admissible m t (inserts ins) l"
  using assms
proof (induction ins arbitrary: l)
  case Nil
  then show ?case by (simp add: inserts_def)
next
  case (Cons a ins)
  obtain ident user now where a: "a = (ident, user, now)" by (cases a)
  have "fst ` set (spec_Set m t ident now l) \<subseteq> insert ident (fst ` set l)"
    by (auto simp: spec_Set_def dest: in_set_butlastD)
  moreover from Cons.prems a have "ident \<notin> set (map fst ins)"
    and "set (map fst ins) \<inter> fst ` set l = {}" by auto
  ultimately have "set (map fst ins) \<inter> fst ` set (spec_Set m t ident now l) = {}"
    by (rule disjoint_step)
  with Cons.prems a have "admissible m t (inserts ins) (spec_Set m t ident now l)"
    by (intro Cons.IH) auto
  with Cons.prems a show ?case by (auto simp: inserts_def)
qed

lemma capacity_trace:
  assumes "m < 2147483648" and "admissible m t ops []"
  shows "dom (usersByID (run ops (NewCache t m))) = fst ` set (spec_run m t ops []) \<and>
      len (usersByID (run ops (NewCache t m))) = int (length (spec_run m t ops [])) \<and>
      (0 < m \<longrightarrow> len (usersByID (run ops (NewCache t m))) \<le> m) \<and>
      (\<exists>xs. dll (lru (run ops (NewCache t m))) xs \<and>
            map (node_key (run ops (NewCache t m))) xs = map fst (spec_run m t ops []))"
proof -
  let ?c = "run ops (NewCache t m)"
  have "admissible (maxSize (NewCache t m)) (ttl (NewCache t m)) ops (recency (NewCache t m) [])"
    using assms(2) by (simp add: NewCache_inv)
  from run_sim[OF NewCache_inv(1) NewCache_bounded[OF assms(1)] this]
  obtain ys where ys: "cache_inv ?c ys" "bounded ?c ys" "recency ?c ys = spec_run m t ops []"
    by (auto simp: NewCache_inv)
  have p: "maxSize ?c = m" by (simp add: run_params NewCache_inv)
  note r = inv_resident[OF ys]
  have "\<exists>xs. dll (lru ?c) xs \<and> map (node_key ?c) xs = map fst (spec_run m t ops [])"
    using r(4,5) by (intro exI[of _ ys]) simp
  with r(1,2) r(3)[unfolded p] show ?thesis by simp
qed

lemma capacity_inserts:
  assumes "0 < m" and "m < 2147483648" and "distinct (map fst ins)" and "int (length ins) = m + 1"
  shows "dom (usersByID (run (inserts ins) (NewCache t m))) = set (tl (map fst ins)) \<and>
      hd (map fst ins) \<notin> dom (usersByID (run (inserts ins) (NewCache t m))) \<and>
      len (usersByID (run (inserts ins) (NewCache t m))) = m"
proof -
  let ?l = "spec_run m t (inserts ins) []"
  let ?ids = "map fst ins"
  from assms(3) have "admissible m t (inserts ins) []"
    by (intro inserts_admissible) simp_all
  note a = capacity_trace[OF assms(2) this]
  from assms(1,4) have n: "length ?ids = Suc (nat m)" by simp
  then have ne: "?ids \<noteq> []" by auto
  from inserts_spec[OF assms(1), of "[]" t ins] assms(1)
  have "map fst ?l = take (nat m) (rev ?ids)" by simp
  also have "\<dots> = rev (tl ?ids)"
    using n by (simp add: take_rev drop_Suc)
  finally have k: "map fst ?l = rev (tl ?ids)" .
  have "set (map fst ?l) = set (tl ?ids)" by (simp only: k set_rev)
  then have s: "fst ` set ?l = set (tl ?ids)" by (simp only: set_map)
  have "length (map fst ?l) = length (tl ?ids)" by (simp only: k length_rev)
  with n assms(1) have l: "int (length ?l) = m" by simp
  from assms(3) ne have h: "hd ?ids \<notin> set (tl ?ids)"
    by (cases ?ids) auto
  from a have d: "dom (usersByID (run (inserts ins) (NewCache t m))) = fst ` set ?l"
    and c: "len (usersByID (run (inserts ins) (NewCache t m))) = int (length ?l)"
    by blast+
  from d c s l h show ?thesis by (simp only: simp_thms)
qed

lemma capacity_unbounded:
  assumes "maxSize c \<le> 0"
  shows "evict c = c \<and>
      dom (usersByID (Cache_Set ident user now c)) = insert ident (dom (usersByID c)) \<and>
      (\<forall>k. k \<noteq> ident \<longrightarrow> usersByID (Cache_Set ident user now c) k = usersByID c k)"
proof -
  from assms have "evict c = c" by (intro evict_idle) simp
  then show ?thesis by (simp add: Cache_Set_eq)
qed

text \<open>
  Claim C3. Take a new cache of capacity \<open>m\<close> (an \<^verbatim>\<open>int32\<close>, so below \<open>2^31\<close>) and any
  admissible trace of \<^verbatim>\<open>Set\<close> and \<^verbatim>\<open>Get\<close> calls. After the trace the resident
  identifiers are those of the recency list of the specification, the LRU list of the
  cache carries them in the same order, and for a positive capacity at most \<open>m\<close> entries
  are resident: each eviction removed the last entry of the recency order, the one
  touched least recently by insertion or access. In particular \<open>m + 1\<close> records with
  different identifiers, set one after the other, leave exactly \<open>m\<close> resident, the first
  one being the one evicted. With a capacity of 0 (or below) \<^verbatim>\<open>Set\<close> evicts nothing,
  whatever the cache holds.
\<close>

theorem capacity_and_eviction:
  "(m < 2147483648 \<and> admissible m t ops [] \<longrightarrow>
      dom (usersByID (run ops (NewCache t m))) = fst ` set (spec_run m t ops []) \<and>
      len (usersByID (run ops (NewCache t m))) = int (length (spec_run m t ops [])) \<and>
      (0 < m \<longrightarrow> len (usersByID (run ops (NewCache t m))) \<le> m) \<and>
      (\<exists>xs. dll (lru (run ops (NewCache t m))) xs \<and>
            map (node_key (run ops (NewCache t m))) xs = map fst (spec_run m t ops []))) \<and>
   (0 < m \<and> m < 2147483648 \<and> distinct (map fst ins) \<and> int (length ins) = m + 1 \<longrightarrow>
      dom (usersByID (run (inserts ins) (NewCache t m))) = set (tl (map fst ins)) \<and>
      hd (map fst ins) \<notin> dom (usersByID (run (inserts ins) (NewCache t m))) \<and>
      len (usersByID (run (inserts ins) (NewCache t m))) = m) \<and>
   (maxSize c \<le> 0 \<longrightarrow>
      evict c = c \<and>
      dom (usersByID (Cache_Set ident user now c)) = insert ident (dom (usersByID c)) \<and>
      (\<forall>k. k \<noteq> ident \<longrightarrow> usersByID (Cache_Set ident user now c) k = usersByID c k))"
proof (intro conjI impI)
  assume h: "m < 2147483648 \<and> admissible m t ops []"
  note a = capacity_trace[OF conjunct1[OF h] conjunct2[OF h]]
  from a show "dom (usersByID (run ops (NewCache t m))) = fst ` set (spec_run m t ops [])" by blast
  from a show "len (usersByID (run ops (NewCache t m))) = int (length (spec_run m t ops []))" by blast
  from a show "0 < m \<Longrightarrow> len (usersByID (run ops (NewCache t m))) \<le> m" by blast
  from a show "\<exists>xs. dll (lru (run ops (NewCache t m))) xs \<and>
            map (node_key (run ops (NewCache t m))) xs = map fst (spec_run m t ops [])" by blast
next
  assume h: "0 < m \<and> m < 2147483648 \<and> distinct (map fst ins) \<and> int (length ins) = m + 1"
  then have "0 < m" "m < 2147483648" "distinct (map fst ins)" "int (length ins) = m + 1"
    by blast+
  note a = capacity_inserts[OF this, of t]
  from a show "dom (usersByID (run (inserts ins) (NewCache t m))) = set (tl (map fst ins))" by blast
  from a show "hd (map fst ins) \<notin> dom (usersByID (run (inserts ins) (NewCache t m)))" by blast
  from a show "len (usersByID (run (inserts ins) (NewCache t m))) = m" by blast
next
  assume h: "maxSize c \<le> 0"
  note a = capacity_unbounded[OF h, of ident user now]
  from a show "evict c = c" by blast
  from a show "dom (usersByID (Cache_Set ident user now c)) = insert ident (dom (usersByID c))" by blast
  from a show "\<forall>k. k \<noteq> ident \<longrightarrow> usersByID (Cache_Set ident user now c) k = usersByID c k" by blast
qed

theorem capacity_and_eviction_witness:
  "admissible 2 10 [OpSet ''u1'' user1 0, OpSet ''u2'' user2 1, OpGet ''u1'' 2, OpSet ''u3'' user3 3] [] \<and>
   dom (usersByID (run [OpSet ''u1'' user1 0, OpSet ''u2'' user2 1, OpGet ''u1'' 2,
                        OpSet ''u3'' user3 3] (NewCache 10 2))) = {''u1'', ''u3''} \<and>
   distinct (map fst [(''u1'', user1, 0), (''u2'', user2, 1), (''u3'', user3, 2::int)]) \<and>
   dom (usersByID (run (inserts [(''u1'', user1, 0), (''u2'', user2, 1), (''u3'', user3, 2)])
                     (NewCache 10 2))) = {''u2'', ''u3''} \<and>
   maxSize (NewCache 10 0) \<le> 0 \<and>
   dom (usersByID (Cache_Set ''u1'' user1 0 (NewCache 10 0))) = {''u1''}"
  using capacity_and_eviction[where m = 2 and t = 10
      and ops = "[OpSet ''u1'' user1 0, OpSet ''u2'' user2 1, OpGet ''u1'' 2, OpSet ''u3'' user3 3]"
      and ins = "[(''u1'', user1, 0), (''u2'', user2, 1), (''u3'', user3, 2)]"
      and c = "NewCache 10 0" and ident = "''u1''" and user = user1 and now = 0]
  by (simp add: spec_Set_def spec_Get_def NewCache_inv) (simp add: NewCache_def insert_commute)

section \<open>The LRU index and the two access paths\<close>

text \<open>
  Claim C5. The invariant asks that every node linked in the list has its entry in the
  lookup map. The code breaks it on the first promotion: \<^verbatim>\<open>MoveToFront\<close> unlinks the node
  through \<^verbatim>\<open>Remove\<close>, which also deletes the node's key from the map, and links the node
  again without registering it. After \<^verbatim>\<open>Add("key1")\<close>, \<^verbatim>\<open>Add("key2")\<close> and
  \<^verbatim>\<open>MoveToFront\<close> of the first node, that node is the head of the list, the second node
  follows it and is the tail, and \<^verbatim>\<open>GetNode("key1")\<close> finds nothing.
\<close>

theorem MoveToFront_forgets_key:
  "case Add ''key1'' NewLRUManager of (node1, l1) \<Rightarrow>
   case Add ''key2'' l1 of (node2, l2) \<Rightarrow>
     head (MoveToFront node1 l2) = Some node1 \<and>
     next (nodes (MoveToFront node1 l2) node1) = Some node2 \<and>
     tail (MoveToFront node1 l2) = Some node2 \<and>
     key (nodes (MoveToFront node1 l2) node1) = ''key1'' \<and>
     GetNode ''key1'' (MoveToFront node1 l2) = (None, False)"
  by (simp add: lru_eval)

text \<open>
  Claim C4. A touch through \<^verbatim>\<open>GetByEmail\<close> is meant to promote the entry, and the code
  calls \<^verbatim>\<open>MoveToFront\<close> for it, on the node that \<^verbatim>\<open>GetNode\<close> finds under the record's
  identifier. Once an entry has been promoted through \<^verbatim>\<open>Get\<close>, its key is gone from the
  lookup map, and \<^verbatim>\<open>GetByEmail\<close> promotes nothing. In the cache \<open>touched_twice 2\<close> (both
  users set, then both read by identifier) the list is \<open>u2, u1\<close>. \<^verbatim>\<open>GetByEmail\<close> of
  \<open>user1\<close>'s alias returns the record, and the list stays as it was: \<open>u2\<close>'s node at the
  head, \<open>u1\<close>'s node at the tail. The next \<^verbatim>\<open>Set\<close>, on the full cache, evicts \<open>u1\<close>, the
  entry touched last, and keeps \<open>u2\<close>.
\<close>

theorem GetByEmail_promotes_nothing:
  "fst (Cache_GetByEmail ''a1@example.com'' 1 (touched_twice 2)) = (Some user1, True) \<and>
   head (lru (snd (Cache_GetByEmail ''a1@example.com'' 1 (touched_twice 2)))) = Some 1 \<and>
   tail (lru (snd (Cache_GetByEmail ''a1@example.com'' 1 (touched_twice 2)))) = Some 0 \<and>
   key (nodes (lru (snd (Cache_GetByEmail ''a1@example.com'' 1 (touched_twice 2)))) 0) = ''u1'' \<and>
   usersByID (Cache_Set ''u3'' user3 2
     (snd (Cache_GetByEmail ''a1@example.com'' 1 (touched_twice 2)))) ''u1'' = None \<and>
   usersByID (Cache_Set ''u3'' user3 2
     (snd (Cache_GetByEmail ''a1@example.com'' 1 (touched_twice 2)))) ''u2'' \<noteq> None"
  by (simp add: touched_twice_def cache_eval lru_eval)

text \<open>
  Claim C6. Every removal is meant to take the entry out of both maps and out of the LRU
  index at once. In the same cache, \<^verbatim>\<open>GetByEmail\<close> of \<open>user1\<close>'s alias at time 11, after
  the entry has expired, reports not-found and deletes the entry from both maps, but
  \<^verbatim>\<open>GetNode\<close> no longer finds the node and it stays linked: the list is still \<open>u2, u1\<close>
  with \<open>u1\<close>'s node as the tail. From then on the eviction in \<^verbatim>\<open>Set\<close> finds a tail whose
  key is in no map and evicts nothing: two more records set into this cache of capacity 2
  leave three resident entries.
\<close>

theorem expired_GetByEmail_leaves_node:
  "fst (Cache_GetByEmail ''a1@example.com'' 11 (touched_twice 2)) = (None, False) \<and>
   usersByID after_expiry ''u1'' = None \<and> usersByEmail after_expiry ''a1@example.com'' = None \<and>
   head (lru after_expiry) = Some 1 \<and> next (nodes (lru after_expiry) 1) = Some 0 \<and>
   tail (lru after_expiry) = Some 0 \<and> key (nodes (lru after_expiry) 0) = ''u1'' \<and>
   maxSize after_expiry = 2 \<and>
   len (usersByID (Cache_Set ''u4'' user4 12 (Cache_Set ''u3'' user3 12 after_expiry))) = 3"
  by (simp add: after_expiry_def touched_twice_def cache_eval lru_eval)

section \<open>The validator\<close>

text \<open>
  Claim C7. \<^verbatim>\<open>Add\<close> on a record whose account is not a VLESS account returns the
  validation error and leaves the validator as it was: the storage state is not touched
  (this holds for every storage, so no method of it has run) and neither is the cache.
  For a VLESS record, an error of \<^verbatim>\<open>AddUser\<close> is returned as it is and the cache is not
  touched; on success the record is set into the cache, if there is one, under its
  identifier. \<^verbatim>\<open>Del\<close> likewise returns an error of \<^verbatim>\<open>DelUser\<close> as it is, the cache untouched.
\<close>

theorem Validator_write_path:
  "(Account user = OtherAccount \<longrightarrow>
      Validator_Add user now v = (Some (Error ''not a VLESS user''), v)) \<and>
   (Account user = MemoryAccount uuid \<and> AddUser (storage v) user (store v) = (Some e, s) \<longrightarrow>
      Validator_Add user now v = (Some e, v\<lparr>store := s\<rparr>)) \<and>
   (Account user = MemoryAccount uuid \<and> AddUser (storage v) user (store v) = (None, s) \<longrightarrow>
      Validator_Add user now v =
        (None, v\<lparr>store := s, cache := map_option (Cache_Set uuid user now) (cache v)\<rparr>)) \<and>
   (DelUser (storage v) email (store v) = (Some e, s) \<longrightarrow>
      Validator_Del ks email v = (Some e, v\<lparr>store := s\<rparr>))"
  by (cases "cache v") (simp_all add: Validator_Add_def Validator_Del_def)

theorem Validator_write_path_witness:
  "Validator_Add \<lparr>Email = ''x'', Account = OtherAccount\<rparr> 0 (cached_validator list_storage)
     = (Some (Error ''not a VLESS user''), cached_validator list_storage) \<and>
   Validator_Add user1 0 (cached_validator (failing_storage (Error ''user already exists'') 0))
     = (Some (Error ''user already exists''),
        cached_validator (failing_storage (Error ''user already exists'') 0)) \<and>
   Validator_Add user1 0 (cached_validator list_storage)
     = (None, (cached_validator list_storage)
          \<lparr>store := [user1], cache := Some (Cache_Set ''u1'' user1 0 (NewCache 10 2))\<rparr>) \<and>
   Validator_Del [] ''a1@example.com'' (cached_validator (failing_storage (Error ''connection lost'') 0))
     = (Some (Error ''connection lost''),
        cached_validator (failing_storage (Error ''connection lost'') 0))"
  using
    Validator_write_path[where user = "\<lparr>Email = ''x'', Account = OtherAccount\<rparr>" and now = 0
      and v = "cached_validator list_storage"]
    Validator_write_path[where user = user1 and uuid = "''u1''" and now = 0
      and v = "cached_validator (failing_storage (Error ''user already exists'') 0)"
      and e = "Error ''user already exists''" and s = "[]"]
    Validator_write_path[where user = user1 and uuid = "''u1''" and now = 0
      and v = "cached_validator list_storage" and s = "[user1]"]
    Validator_write_path[where email = "''a1@example.com''" and ks = "[]"
      and v = "cached_validator (failing_storage (Error ''connection lost'') 0)"
      and e = "Error ''connection lost''" and s = "[]"]
  by (simp add: cached_validator_def list_storage_def failing_storage_def user1_def)

lemma lookup_absent:
  "cache v = None \<Longrightarrow> lookup f v = ((None, False), v)"
  "cache v = Some c \<Longrightarrow> usersByID c ident = None \<Longrightarrow>
     lookup (Cache_Get ident now) v = ((None, False), v)"
  "cache v = Some c \<Longrightarrow> usersByEmail c email = None \<Longrightarrow>
     lookup (Cache_GetByEmail email now) v = ((None, False), v)"
  by (simp_all add: lookup_def Cache_Get_def Cache_GetByEmail_def)

text \<open>
  Claim C8. When the cache lookup misses (or there is no cache) and the storage lookup
  returns an error, whatever the error and whatever record comes with it, \<^verbatim>\<open>Get\<close> and
  \<^verbatim>\<open>GetByEmail\<close> return nil. The error itself is dropped: the result is the same for
  every error.
\<close>

theorem Validator_read_errors:
  "(lookup (Cache_Get ident now) v = ((hit, False), w) \<and>
    GetUserByID (storage w) ident (store w) = ((user, Some e), s) \<longrightarrow>
      Validator_Get ident now now' v = (None, w\<lparr>store := s\<rparr>)) \<and>
   (lookup (Cache_GetByEmail email now) v = ((hit, False), w) \<and>
    GetUserByEmail (storage w) email (store w) = ((user, Some e), s) \<longrightarrow>
      Validator_GetByEmail email now now' v = (None, w\<lparr>store := s\<rparr>))"
  by (simp add: Validator_Get_def Validator_GetByEmail_def)

theorem Validator_read_errors_witness:
  "Validator_Get ''u1'' 0 0 (cached_validator (failing_storage (Error ''connection lost'') 0))
     = (None, cached_validator (failing_storage (Error ''connection lost'') 0)) \<and>
   Validator_GetByEmail ''a1@example.com'' 0 0
       (cached_validator (failing_storage (Error ''user not found'') 0))
     = (None, cached_validator (failing_storage (Error ''user not found'') 0))"
  using
    Validator_read_errors[where ident = "''u1''" and now = 0 and now' = 0
      and v = "cached_validator (failing_storage (Error ''connection lost'') 0)"
      and w = "cached_validator (failing_storage (Error ''connection lost'') 0)"
      and hit = None and user = None and e = "Error ''connection lost''" and s = "[]"]
    Validator_read_errors[where email = "''a1@example.com''" and now = 0 and now' = 0
      and v = "cached_validator (failing_storage (Error ''user not found'') 0)"
      and w = "cached_validator (failing_storage (Error ''user not found'') 0)"
      and hit = None and user = None and e = "Error ''user not found''" and s = "[]"]
    lookup_absent(2)[where v = "cached_validator (failing_storage (Error ''connection lost'') 0)"
      and c = "NewCache 10 2" and ident = "''u1''" and now = 0]
    lookup_absent(3)[where v = "cached_validator (failing_storage (Error ''user not found'') 0)"
      and c = "NewCache 10 2" and email = "''a1@example.com''" and now = 0]
  by (simp add: cached_validator_def failing_storage_def NewCache_def)

text \<open>
  Claim C10, as amended. When the cache lookup misses and the storage lookup returns a
  nil record with a nil error, \<^verbatim>\<open>Get\<close> and \<^verbatim>\<open>GetByEmail\<close> return nil and set nothing into
  the cache: the cache is left as the lookup left it. The lookup leaves it unchanged when
  there is no cache or the identifier (the alias) is not in it; a lookup that meets an
  expired entry removes that entry, as the counterexample shows.
\<close>

theorem Validator_nil_record:
  "(lookup (Cache_Get ident now) v = ((hit, False), w) \<and>
    GetUserByID (storage w) ident (store w) = ((None, None), s) \<longrightarrow>
      Validator_Get ident now now' v = (None, w\<lparr>store := s\<rparr>)) \<and>
   (lookup (Cache_GetByEmail email now) v = ((hit, False), w) \<and>
    GetUserByEmail (storage w) email (store w) = ((None, None), s) \<longrightarrow>
      Validator_GetByEmail email now now' v = (None, w\<lparr>store := s\<rparr>)) \<and>
   (cache v = None \<longrightarrow> lookup f v = ((None, False), v)) \<and>
   (cache v = Some c \<and> usersByID c ident = None \<longrightarrow>
      lookup (Cache_Get ident now) v = ((None, False), v)) \<and>
   (cache v = Some c \<and> usersByEmail c email = None \<longrightarrow>
      lookup (Cache_GetByEmail email now) v = ((None, False), v))"
  by (simp add: Validator_Get_def Validator_GetByEmail_def lookup_absent)

theorem Validator_nil_record_witness:
  "Validator_Get ''u1'' 0 0 (cached_validator list_storage) = (None, cached_validator list_storage) \<and>
   Validator_GetByEmail ''a1@example.com'' 0 0 (cached_validator list_storage)
     = (None, cached_validator list_storage) \<and>
   Validator_Get ''u1'' 0 0 (plain_validator list_storage [])
     = (None, plain_validator list_storage [])"
proof -
  let ?v = "cached_validator list_storage"
  let ?p = "plain_validator list_storage []"
  have c: "cache ?v = Some (NewCache 10 2)" "usersByID (NewCache 10 2) ''u1'' = None"
    "usersByEmail (NewCache 10 2) ''a1@example.com'' = None"
    by (simp_all add: cached_validator_def NewCache_def)
  have s: "GetUserByID (storage ?v) ''u1'' (store ?v) = ((None, None), [])"
    "GetUserByEmail (storage ?v) ''a1@example.com'' (store ?v) = ((None, None), [])"
    "?v\<lparr>store := []\<rparr> = ?v"
    by (simp_all add: cached_validator_def list_storage_def)
  note t = Validator_nil_record[where v = ?v and w = ?v and c = "NewCache 10 2" and hit = None
      and ident = "''u1''" and email = "''a1@example.com''" and s = "[]" and now = 0 and now' = 0]
  from t c s have 1: "Validator_Get ''u1'' 0 0 ?v = (None, ?v)"
    and 2: "Validator_GetByEmail ''a1@example.com'' 0 0 ?v = (None, ?v)"
    by simp_all
  have q: "cache ?p = None" "GetUserByID (storage ?p) ''u1'' (store ?p) = ((None, None), [])"
    "?p\<lparr>store := []\<rparr> = ?p"
    by (simp_all add: plain_validator_def list_storage_def)
  note u = Validator_nil_record[where v = ?p and w = ?p and hit = None and f = "Cache_Get ''u1'' 0"
      and ident = "''u1''" and s = "[]" and now = 0 and now' = 0]
  from u q have 3: "Validator_Get ''u1'' 0 0 ?p = (None, ?p)" by simp
  from 1 2 3 show ?thesis by simp
qed

theorem Validator_nil_record_counterexample:
  "fst (Validator_Get ''u1'' 11 11 stale_validator) = None \<and>
   cache (snd (Validator_Get ''u1'' 11 11 stale_validator)) \<noteq> cache stale_validator"
proof -
  let ?r = "Validator_Get ''u1'' 11 11 stale_validator"
  have 1: "fst ?r = None"
    by (simp add: Validator_Get_def lookup_def stale_validator_def list_storage_def
        cache_eval lru_eval)
  have 2: "usersByID (the (cache (snd ?r))) ''u1'' = None"
    by (simp add: Validator_Get_def lookup_def stale_validator_def list_storage_def
        cache_eval lru_eval)
  have 3: "usersByID (the (cache stale_validator)) ''u1'' \<noteq> None"
    by (simp add: stale_validator_def cache_eval lru_eval)
  from 2 3 have "cache (snd ?r) \<noteq> cache stale_validator" by auto
  with 1 show ?thesis by simp
qed

section \<open>The pagination of \<^verbatim>\<open>GetAll\<close>\<close>

lemma reaches_loop:
  "reaches st s0 offset allUsers s \<Longrightarrow>
     GetAll_loop st 0 100 [] s0 = GetAll_loop st offset 100 allUsers s"
proof (induction rule: reaches.induct)
  case start
  show ?case by simp
next
  case (page offset allUsers s users s1)
  from page.hyps(2,3) have "GetAll_loop st offset 100 allUsers s
      = GetAll_loop st (offset + 100) 100 (allUsers @ users) s1"
    by (subst GetAll_loop.simps) auto
  with page.IH show ?case by simp
qed

lemma loop_pages:
  assumes "\<And>off. 0 \<le> off \<Longrightarrow> GetUsers st off 100 s = ((take 100 (drop (nat off) xs), None), s)"
  shows "GetAll_loop st (int k) 100 (take k xs) s = Some (xs, s)"
proof (induction "length xs - k" arbitrary: k rule: less_induct)
  case less
  define p where "p = take 100 (drop k xs)"
  have g: "GetUsers st (int k) 100 s = ((p, None), s)"
    using assms[of "int k"] by (simp add: p_def)
  consider "length xs \<le> k" | "k < length xs" "length xs < k + 100" | "k + 100 \<le> length xs"
    by linarith
  then show ?case
  proof cases
    case 1
    then have "p = []" "take k xs = xs" by (simp_all add: p_def)
    with g show ?thesis by (subst GetAll_loop.simps) simp
  next
    case 2
    then have "p = drop k xs" by (simp add: p_def)
    with 2 have "p \<noteq> []" "int (length p) < 100" "take k xs @ p = xs" by simp_all
    with g show ?thesis by (subst GetAll_loop.simps) simp
  next
    case 3
    then have l: "p \<noteq> []" "\<not> int (length p) < 100" by (auto simp: p_def)
    have t: "take k xs @ p = take (k + 100) xs" by (simp add: p_def take_add)
    from 3 have "length xs - (k + 100) < length xs - k" by linarith
    from less[OF this]
    have "GetAll_loop st (int (k + 100)) 100 (take (k + 100) xs) s = Some (xs, s)" .
    then have "GetAll_loop st (int k + 100) 100 (take k xs @ p) s = Some (xs, s)"
      by (simp add: t)
    with g l show ?thesis by (subst GetAll_loop.simps) simp
  qed
qed

text \<open>
  Claim C9. Without a cache, \<^verbatim>\<open>GetAll\<close> asks the storage for pages of 100 records,
  from offset 0 on and 100 further each time, as long as the pages are full. It stops at
  the first page that is empty or holds fewer than 100 records and returns all the pages
  so far, one after the other; a page that comes with an error makes the call return
  nil. For a storage that serves the pages of a list \<open>xs\<close> by offset and limit, the call
  therefore returns and its result is \<open>xs\<close>, whatever the length of \<open>xs\<close>: 101 records come
  back as 101.
\<close>

theorem GetAll_pagination:
  assumes "cache v = None"
  shows
    "(reaches (storage v) (store v) offset allUsers s \<and>
      GetUsers (storage v) offset 100 s = ((users, Some e), s') \<longrightarrow>
        Validator_GetAll ks now v = Some ([], v\<lparr>store := s'\<rparr>)) \<and>
     (reaches (storage v) (store v) offset allUsers s \<and>
      GetUsers (storage v) offset 100 s = (([], None), s') \<longrightarrow>
        Validator_GetAll ks now v = Some (allUsers, v\<lparr>store := s'\<rparr>)) \<and>
     (reaches (storage v) (store v) offset allUsers s \<and>
      GetUsers (storage v) offset 100 s = ((users, None), s') \<and> users \<noteq> [] \<and> length users < 100 \<longrightarrow>
        Validator_GetAll ks now v = Some (allUsers @ users, v\<lparr>store := s'\<rparr>)) \<and>
     ((\<forall>off\<ge>0. GetUsers (storage v) off 100 (store v)
          = ((take 100 (drop (nat off) xs), None), store v)) \<longrightarrow>
        Validator_GetAll ks now v = Some (xs, v))"
proof -
  have 1: "Validator_GetAll ks now v = Some ([], v\<lparr>store := s'\<rparr>)"
    if "reaches (storage v) (store v) offset allUsers s"
      and "GetUsers (storage v) offset 100 s = ((users, Some e), s')"
  proof -
    have "GetAll_loop (storage v) offset 100 allUsers s = Some ([], s')"
      using that(2) by (subst GetAll_loop.simps) simp
    with reaches_loop[OF that(1)] assms show ?thesis by (simp add: Validator_GetAll_def)
  qed
  have 2: "Validator_GetAll ks now v = Some (allUsers, v\<lparr>store := s'\<rparr>)"
    if "reaches (storage v) (store v) offset allUsers s"
      and "GetUsers (storage v) offset 100 s = (([], None), s')"
  proof -
    have "GetAll_loop (storage v) offset 100 allUsers s = Some (allUsers, s')"
      using that(2) by (subst GetAll_loop.simps) simp
    with reaches_loop[OF that(1)] assms show ?thesis by (simp add: Validator_GetAll_def)
  qed
  have 3: "Validator_GetAll ks now v = Some (allUsers @ users, v\<lparr>store := s'\<rparr>)"
    if "reaches (storage v) (store v) offset allUsers s"
      and "GetUsers (storage v) offset 100 s = ((users, None), s')"
      and "users \<noteq> []" and "length users < 100"
  proof -
    have "GetAll_loop (storage v) offset 100 allUsers s = Some (allUsers @ users, s')"
      using that(2,3,4) by (subst GetAll_loop.simps) simp
    with reaches_loop[OF that(1)] assms show ?thesis by (simp add: Validator_GetAll_def)
  qed
  have 4: "Validator_GetAll ks now v = Some (xs, v)"
    if "\<forall>off\<ge>0. GetUsers (storage v) off 100 (store v)
          = ((take 100 (drop (nat off) xs), None), store v)"
  proof -
    from that have "GetAll_loop (storage v) (int 0) 100 (take 0 xs) (store v) = Some (xs, store v)"
      by (intro loop_pages) simp
    with assms show ?thesis by (simp add: Validator_GetAll_def)
  qed
  from 1 2 3 4 show ?thesis by blast
qed

theorem GetAll_pagination_witness:
  "length (many_users 101) = 101 \<and>
   Validator_GetAll [] 0 (plain_validator list_storage (many_users 101))
     = Some (map Some (many_users 101), plain_validator list_storage (many_users 101)) \<and>
   reaches list_storage (many_users 101) 100 (map Some (take 100 (many_users 101))) (many_users 101) \<and>
   Validator_GetAll [] 0 (plain_validator list_storage (many_users 101))
     = Some (map Some (take 100 (many_users 101)) @ map Some (drop 100 (many_users 101)),
             plain_validator list_storage (many_users 101)) \<and>
   Validator_GetAll [] 0 (plain_validator list_storage (many_users 100))
     = Some (map Some (take 100 (many_users 100)), plain_validator list_storage (many_users 100)) \<and>
   Validator_GetAll [] 0
       (plain_validator (failing_storage (Error ''connection lost'') 100) (many_users 101))
     = Some ([], plain_validator (failing_storage (Error ''connection lost'') 100) (many_users 101))"
proof -
  let ?s = "many_users 101"
  let ?v = "plain_validator list_storage ?s"
  let ?f = "failing_storage (Error ''connection lost'') 100"
  let ?w = "plain_validator ?f ?s"
  let ?z = "many_users 100"
  let ?y = "plain_validator list_storage ?z"
  have n: "cache ?v = None" "cache ?w = None" "cache ?y = None"
    by (simp_all add: plain_validator_def)
  have len: "length ?s = 101" "length ?z = 100" by (simp_all add: many_users_def)
  have p: "\<forall>off\<ge>0. GetUsers (storage ?v) off 100 (store ?v)
             = ((take 100 (drop (nat off) (map Some ?s)), None), store ?v)"
    by (simp add: plain_validator_def list_storage_def take_map drop_map)
  have a: "Validator_GetAll [] 0 ?v = Some (map Some ?s, ?v)"
    using GetAll_pagination[OF n(1), where xs = "map Some ?s" and ks = "[]" and now = 0] p
    by blast
  have v0: "GetUsers (storage ?v) 0 100 (store ?v) = ((map Some (take 100 ?s), None), ?s)"
    by (simp add: plain_validator_def list_storage_def)
  have l0: "100 \<le> length (map Some (take 100 ?s))" by (simp add: len)
  have rv: "reaches (storage ?v) (store ?v) (0 + 100) ([] @ map Some (take 100 ?s)) ?s"
    by (rule reaches.page[OF reaches.start v0 l0])
  have v1: "GetUsers (storage ?v) (0 + 100) 100 ?s = ((map Some (drop 100 ?s), None), ?s)"
    by (simp add: plain_validator_def list_storage_def len)
  have v2: "map Some (drop 100 ?s) \<noteq> []" "length (map Some (drop 100 ?s)) < 100"
    by (simp_all add: len)
  have "Validator_GetAll [] 0 ?v
      = Some (([] @ map Some (take 100 ?s)) @ map Some (drop 100 ?s), ?v\<lparr>store := ?s\<rparr>)"
    using GetAll_pagination[OF n(1), where ks = "[]" and now = 0 and offset = "0 + 100"
        and allUsers = "[] @ map Some (take 100 ?s)" and s = ?s
        and users = "map Some (drop 100 ?s)" and s' = ?s] rv v1 v2
    by blast
  then have c: "Validator_GetAll [] 0 ?v
      = Some (map Some (take 100 ?s) @ map Some (drop 100 ?s), ?v)"
    by (simp add: plain_validator_def)
  have rl: "reaches list_storage ?s 100 (map Some (take 100 ?s)) ?s"
    using rv by (simp add: plain_validator_def)
  have y0: "GetUsers (storage ?y) 0 100 (store ?y) = ((map Some (take 100 ?z), None), ?z)"
    by (simp add: plain_validator_def list_storage_def)
  have m0: "100 \<le> length (map Some (take 100 ?z))" by (simp add: len)
  have ry: "reaches (storage ?y) (store ?y) (0 + 100) ([] @ map Some (take 100 ?z)) ?z"
    by (rule reaches.page[OF reaches.start y0 m0])
  have y1: "GetUsers (storage ?y) (0 + 100) 100 ?z = (([], None), ?z)"
    by (simp add: plain_validator_def list_storage_def len)
  have "Validator_GetAll [] 0 ?y = Some ([] @ map Some (take 100 ?z), ?y\<lparr>store := ?z\<rparr>)"
    using GetAll_pagination[OF n(3), where ks = "[]" and now = 0 and offset = "0 + 100"
        and allUsers = "[] @ map Some (take 100 ?z)" and s = ?z and s' = ?z] ry y1
    by blast
  then have d: "Validator_GetAll [] 0 ?y = Some (map Some (take 100 ?z), ?y)"
    by (simp add: plain_validator_def)
  have g0: "GetUsers (storage ?w) 0 100 (store ?w) = ((map Some (take 100 ?s), None), ?s)"
    by (simp add: plain_validator_def failing_storage_def list_storage_def)
  have r: "reaches (storage ?w) (store ?w) (0 + 100) ([] @ map Some (take 100 ?s)) ?s"
    by (rule reaches.page[OF reaches.start g0 l0])
  have g1: "GetUsers (storage ?w) (0 + 100) 100 ?s = (([], Some (Error ''connection lost'')), ?s)"
    by (simp add: plain_validator_def failing_storage_def)
  have "Validator_GetAll [] 0 ?w = Some ([], ?w\<lparr>store := ?s\<rparr>)"
    using GetAll_pagination[OF n(2), where ks = "[]" and now = 0 and offset = "0 + 100"
        and allUsers = "[] @ map Some (take 100 ?s)" and s = ?s and users = "[]"
        and e = "Error ''connection lost''" and s' = ?s] r g1
    by blast
  then have b: "Validator_GetAll [] 0 ?w = Some ([], ?w)"
    by (simp add: plain_validator_def)
  from len(1) a rl c d b show ?thesis by (simp only: simp_thms)
qed

end
